theory Spec2Isabelle
  imports Complex_Main
begin

section \<open>Python strings\<close>

text \<open>
  A Python \<open>str\<close> is a sequence of Unicode code points, so it is modelled as a list of
  code points. The non-ASCII code points of the sources are U+03A9 (Greek capital omega,
  937) and U+03BC (Greek small mu, 956). \<open>cps\<close> turns an ASCII literal into its code
  points.
\<close>

type_synonym pystr = "nat list"

definition cps :: "string \<Rightarrow> pystr" where
  "cps s = map of_char s"

definition OMEGA :: nat where
  "OMEGA = 937"

definition MU :: nat where
  "MU = 956"

text \<open>
  \<open>str.replace(old, new)\<close>: every non-overlapping occurrence of \<open>old\<close>, scanned from
  the left, is replaced by \<open>new\<close>. (Every call of the sources passes a non-empty
  \<open>old\<close>; with an empty \<open>old\<close> the model returns the string unchanged.)
\<close>

function py_replace :: "pystr \<Rightarrow> pystr \<Rightarrow> pystr \<Rightarrow> pystr" where
  "py_replace old new [] = []"
| "py_replace old new (c # cs) =
     (if old \<noteq> [] \<and> take (length old) (c # cs) = old
      then new @ py_replace old new (drop (length old) (c # cs))
      else c # py_replace old new cs)"
  by pat_completeness auto
termination
  by (relation "measure (\<lambda>(old, new, s). length s)") (auto simp: neq_Nil_conv)

text \<open>\<open>sub in s\<close> on strings: \<open>sub\<close> occurs as a contiguous substring of \<open>s\<close>.\<close>

fun py_in :: "pystr \<Rightarrow> pystr \<Rightarrow> bool" where
  "py_in sub [] = (sub = [])"
| "py_in sub (c # cs) = (take (length sub) (c # cs) = sub \<or> py_in sub cs)"

text \<open>
  \<open>str.lower()\<close>, code point by code point. The table covers ASCII, Latin-1 and the
  basic Greek capitals, the Ohm, Kelvin and Angstrom signs, and U+0130 (which lowers to
  two code points); every other code point is left as it is, and a capital sigma always
  lowers to the non-final small sigma. This is Python's result on the strings the
  theorems evaluate (ASCII letters, digits, U+03A9 and U+03BC); the general theorems do
  not depend on the table.
\<close>

definition lower_cp :: "nat \<Rightarrow> pystr" where
  "lower_cp c =
     (if 65 \<le> c \<and> c \<le> 90 then [c + 32]
      else if 192 \<le> c \<and> c \<le> 222 \<and> c \<noteq> 215 then [c + 32]
      else if 913 \<le> c \<and> c \<le> 937 \<and> c \<noteq> 930 then [c + 32]
      else if c = 304 then [105, 775]
      else if c = 8486 then [969]
      else if c = 8490 then [107]
      else if c = 8491 then [229]
      else [c])"

definition py_lower :: "pystr \<Rightarrow> pystr" where
  "py_lower s = concat (map lower_cp s)"

text \<open>\<open>sep.join(lines)\<close>.\<close>

fun py_join :: "pystr \<Rightarrow> pystr list \<Rightarrow> pystr" where
  "py_join sep [] = []"
| "py_join sep [l] = l"
| "py_join sep (l # ls) = l @ sep @ py_join sep ls"

text \<open>\<open>str(n)\<close> for a natural number and for an integer: the decimal digits.\<close>

fun str_nat :: "nat \<Rightarrow> pystr" where
  "str_nat n = (if n < 10 then [48 + n] else str_nat (n div 10) @ [48 + n mod 10])"

declare str_nat.simps [simp del]

definition str_int :: "int \<Rightarrow> pystr" where
  "str_int i = (if i < 0 then 45 # str_nat (nat (- i)) else str_nat (nat i))"

section \<open>Value normalisation (\<open>netlist_generator.py\<close>)\<close>

text \<open>\<open>NetlistGenerator._parse_resistance_value\<close>.\<close>

definition parse_resistance_value :: "pystr \<Rightarrow> pystr" where
  "parse_resistance_value value_str =
     (if value_str = [] then cps ''1k''
      else
        let v = py_lower (py_replace (cps '' '') []
                  (py_replace (cps ''ohm'') [] (py_replace [OMEGA] [] value_str)))
        in if py_in (cps ''k'') v then v
           else if py_in (cps ''m'') v \<and> \<not> py_in (cps ''meg'') v
             then py_replace (cps ''m'') (cps ''meg'') v
           else if py_in (cps ''g'') v then py_replace (cps ''g'') (cps ''g'') v
           else if v \<noteq> [] then v else cps ''1k'')"

text \<open>
  \<open>NetlistGenerator._parse_capacitance_value\<close>. The multiplier map is a dict literal;
  its items are visited in insertion order.
\<close>

definition capacitance_multiplier_map :: "(pystr \<times> pystr) list" where
  "capacitance_multiplier_map =
     [([MU], cps ''u''), (cps ''u'', cps ''u''), (cps ''n'', cps ''n''),
      (cps ''p'', cps ''p''), (cps ''f'', cps ''f'')]"

definition parse_capacitance_value :: "pystr \<Rightarrow> pystr" where
  "parse_capacitance_value value_str =
     (if value_str = [] then cps ''1n''
      else
        let v0 = py_lower (py_replace (cps '' '') [] (py_replace (cps ''F'') [] value_str));
            v = fold (\<lambda>(old, new) s. py_replace old new s) capacitance_multiplier_map v0
        in if v \<noteq> [] then v else cps ''1n'')"

text \<open>\<open>NetlistGenerator._parse_inductance_value\<close>.\<close>

definition inductance_multiplier_map :: "(pystr \<times> pystr) list" where
  "inductance_multiplier_map =
     [([MU], cps ''u''), (cps ''u'', cps ''u''), (cps ''m'', cps ''m''),
      (cps ''n'', cps ''n'')]"

definition parse_inductance_value :: "pystr \<Rightarrow> pystr" where
  "parse_inductance_value value_str =
     (if value_str = [] then cps ''1u''
      else
        let v0 = py_lower (py_replace (cps '' '') [] (py_replace (cps ''H'') [] value_str));
            v = fold (\<lambda>(old, new) s. py_replace old new s) inductance_multiplier_map v0
        in if v \<noteq> [] then v else cps ''1u'')"

text \<open>\<open>NetlistGenerator._parse_voltage_value\<close>.\<close>

definition parse_voltage_value :: "pystr \<Rightarrow> pystr" where
  "parse_voltage_value value_str =
     (if value_str = [] then cps ''5''
      else
        let v = py_lower (py_replace (cps '' '') [] (py_replace (cps ''V'') [] value_str))
        in if py_in (cps ''k'') v then v
           else if py_in (cps ''m'') v then py_replace (cps ''m'') (cps ''m'') v
           else if v \<noteq> [] then v else cps ''5'')"

section \<open>Connection detection (\<open>connection_detector.py\<close>)\<close>

subsection \<open>Data model\<close>

text \<open>
  Pixel coordinates are integers (unbounded here; the image coordinates of the source
  are far from the range of its machine integers). Floating-point results (\<open>np.sqrt\<close>,
  \<open>np.arctan2\<close>, the confidence sums, the bounding boxes) are modelled as real numbers;
  \<open>int(x)\<close> on a float truncates towards zero.
\<close>

type_synonym point = "int \<times> int"

type_synonym segment = "int \<times> int \<times> int \<times> int"

definition py_int :: "real \<Rightarrow> int" where
  "py_int r = (if 0 \<le> r then \<lfloor>r\<rfloor> else \<lceil>r\<rceil>)"

text \<open>The dataclass \<open>Connection\<close>.\<close>

record Connection =
  start_point :: point
  end_point :: point
  path :: "point list"
  connection_type :: pystr
  confidence :: real
  connected_components :: "pystr list"

text \<open>
  The dataclass \<open>Node\<close>. Its field \<open>connected_components\<close> is named
  \<open>node_components\<close> here, since the record \<open>Connection\<close> has a field of that name.
\<close>

record Node =
  position :: point
  node_id :: pystr
  node_components :: "pystr list"
  connection_count :: nat

text \<open>
  A detected component: the dict keys \<open>id\<close>, \<open>bbox\<close> and the optional
  \<open>component_type\<close> that the detector reads.
\<close>

record detected_component =
  comp_id :: pystr
  bbox :: "real \<times> real \<times> real \<times> real"
  comp_type :: "pystr option"

text \<open>A pin dict, as \<open>_extract_component_pins\<close> builds it.\<close>

record pin =
  pin_id :: pystr
  component_id :: pystr
  pin_position :: point
  pin_number :: nat
  pin_component_type :: pystr

text \<open>
  A classified segment, as \<open>_classify_line_segments\<close> builds it; the four
  \<open>properties\<close> are fields of the record.
\<close>

record classified =
  seg_id :: pystr
  seg_start_point :: point
  seg_end_point :: point
  seg_connection_type :: pystr
  seg_confidence :: real
  prop_length :: real
  prop_angle :: real
  prop_thickness :: real
  prop_continuity :: real

datatype exn = AttributeError pystr | TypeError pystr | IndexError pystr

text \<open>
  \<open>list(set(xs))\<close>: the distinct elements of \<open>xs\<close>. Python does not fix their order;
  the model takes the order of \<open>remdups\<close>, and the theorems speak about the set of
  elements where the order is not determined by the source.
\<close>

definition list_set :: "'a list \<Rightarrow> 'a list" where
  "list_set xs = remdups xs"

subsection \<open>Connection classifier\<close>

text \<open>\<open>np.arctan2(y, x)\<close> on reals: the angle of the point \<open>(x, y)\<close>, in \<open>(-pi, pi]\<close>.\<close>

definition arctan2 :: "real \<Rightarrow> real \<Rightarrow> real" where
  "arctan2 y x =
     (if 0 < x then arctan (y / x)
      else if x < 0 \<and> 0 \<le> y then arctan (y / x) + pi
      else if x < 0 then arctan (y / x) - pi
      else if 0 < y then pi / 2
      else if y < 0 then - (pi / 2)
      else 0)"

text \<open>
  The classification logic of the loop body of \<open>_classify_line_segments\<close>: the base
  confidence and its three boosts, before the clamp.
\<close>

definition boosted_confidence :: "real \<Rightarrow> real \<Rightarrow> real \<Rightarrow> real \<Rightarrow> real" where
  "boosted_confidence angle len thickness continuity =
     (let c0 = 0.7;
          c1 = (if \<bar>angle\<bar> < 15 \<or> \<bar>angle - 90\<bar> < 15 \<or> \<bar>angle - 180\<bar> < 15
                then c0 + 0.2 else c0);
          c2 = (if len > 30 then c1 + 0.1 else c1);
          c3 = (if thickness \<le> 3 \<and> continuity > 0.8 then c2 + 0.1 else c2)
      in c3)"

text \<open>
  The body of the loop of \<open>_classify_line_segments\<close> for the segment at index \<open>i\<close>.
  The thickness and the continuity are measured on the image by
  \<open>_estimate_line_thickness\<close> and \<open>_check_line_continuity\<close> (OpenCV pixel sampling);
  they are parameters of the model.
\<close>

definition classify_segment ::
  "(segment \<Rightarrow> real) \<Rightarrow> (segment \<Rightarrow> real) \<Rightarrow> nat \<Rightarrow> segment \<Rightarrow> classified" where
  "classify_segment estimate_line_thickness check_line_continuity i seg =
     (case seg of (x1, y1, x2, y2) \<Rightarrow>
        let len = sqrt (real_of_int ((x2 - x1)\<^sup>2 + (y2 - y1)\<^sup>2));
            angle = arctan2 (real_of_int (y2 - y1)) (real_of_int (x2 - x1)) * 180 / pi;
            thickness = estimate_line_thickness seg;
            continuity = check_line_continuity seg
        in \<lparr> seg_id = cps ''conn_'' @ str_nat i,
             seg_start_point = (x1, y1),
             seg_end_point = (x2, y2),
             seg_connection_type = cps ''wire'',
             seg_confidence = min (boosted_confidence angle len thickness continuity) 1.0,
             prop_length = len,
             prop_angle = angle,
             prop_thickness = thickness,
             prop_continuity = continuity \<rparr>)"

definition classify_line_segments ::
  "(segment \<Rightarrow> real) \<Rightarrow> (segment \<Rightarrow> real) \<Rightarrow> segment list \<Rightarrow> classified list" where
  "classify_line_segments estimate_line_thickness check_line_continuity line_segments =
     fold (\<lambda>(i, seg) classified_connections.
             classified_connections
               @ [classify_segment estimate_line_thickness check_line_continuity i seg])
          (enumerate 0 line_segments) []"

subsection \<open>Pin locator\<close>

text \<open>\<open>_get_component_pin_locations\<close>.\<close>

definition get_component_pin_locations ::
  "real \<times> real \<times> real \<times> real \<Rightarrow> pystr \<Rightarrow> point list" where
  "get_component_pin_locations bb ctype =
     (case bb of (x1, y1, x2, y2) \<Rightarrow>
        let center_x = (x1 + x2) / 2;
            center_y = (y1 + y2) / 2
        in if ctype = cps ''resistor'' \<or> ctype = cps ''inductor''
             then [(py_int x1, py_int center_y), (py_int x2, py_int center_y)]
           else if ctype = cps ''capacitor''
             then [(py_int x1, py_int center_y), (py_int x2, py_int center_y)]
           else if ctype = cps ''transistor'' \<or> ctype = cps ''op_amp'' \<or> ctype = cps ''ic''
             then
               (let width = x2 - x1; height = y2 - y1
                in if width > height
                   then
                     (let num_pins = nat (max 2 (py_int (width / 20)))
                      in concat (map (\<lambda>i.
                           let pin_x = x1 + (real i + 1) * width / (real num_pins + 1)
                           in [(py_int pin_x, py_int y1), (py_int pin_x, py_int y2)])
                         [0..<num_pins]))
                   else
                     (let num_pins = nat (max 2 (py_int (height / 20)))
                      in concat (map (\<lambda>i.
                           let pin_y = y1 + (real i + 1) * height / (real num_pins + 1)
                           in [(py_int x1, py_int pin_y), (py_int x2, py_int pin_y)])
                         [0..<num_pins])))
           else if ctype = cps ''voltage_source''
             then [(py_int center_x, py_int y1), (py_int center_x, py_int y2)]
           else if ctype = cps ''ground''
             then [(py_int center_x, py_int y1)]
           else [(py_int x1, py_int center_y), (py_int x2, py_int center_y)])"

text \<open>\<open>_extract_component_pins\<close>: the pins of each component, in component order.\<close>

definition pins_of_component :: "detected_component \<Rightarrow> pin list" where
  "pins_of_component component =
     (let ctype = (case comp_type component of Some t \<Rightarrow> t | None \<Rightarrow> cps ''unknown'');
          pins = get_component_pin_locations (bbox component) ctype
      in map (\<lambda>(pin_idx, pin_pos).
                \<lparr> pin_id = comp_id component @ cps ''_pin_'' @ str_nat pin_idx,
                  component_id = comp_id component,
                  pin_position = pin_pos,
                  pin_number = pin_idx + 1,
                  pin_component_type = ctype \<rparr>)
             (enumerate 0 pins))"

definition extract_component_pins :: "detected_component list \<Rightarrow> pin list" where
  "extract_component_pins detected_components =
     fold (\<lambda>component component_pins. component_pins @ pins_of_component component)
          detected_components []"

subsection \<open>Connection network builder\<close>

text \<open>
  The Euclidean distance \<open>np.sqrt(dx**2 + dy**2)\<close> of two points, and the local constant
  \<open>proximity_threshold\<close> of \<open>_build_connection_network\<close>.
\<close>

definition dist_px :: "point \<Rightarrow> point \<Rightarrow> real" where
  "dist_px a b = sqrt (real_of_int ((fst a - fst b)\<^sup>2 + (snd a - snd b)\<^sup>2))"

definition proximity_threshold :: real where
  "proximity_threshold = 25"

text \<open>The inner loop of \<open>_build_connection_network\<close>: the owners of the pins near either endpoint.\<close>

definition nearby_component_ids :: "classified \<Rightarrow> pin list \<Rightarrow> pystr list" where
  "nearby_component_ids conn component_pins =
     fold (\<lambda>p connected.
             if dist_px (seg_start_point conn) (pin_position p) < proximity_threshold
                \<or> dist_px (seg_end_point conn) (pin_position p) < proximity_threshold
             then connected @ [component_id p] else connected)
          component_pins []"

definition connection_of :: "classified \<Rightarrow> pystr list \<Rightarrow> Connection" where
  "connection_of conn comps =
     \<lparr> start_point = seg_start_point conn,
       end_point = seg_end_point conn,
       path = [seg_start_point conn, seg_end_point conn],
       connection_type = seg_connection_type conn,
       confidence = seg_confidence conn,
       connected_components = comps \<rparr>"

definition build_connection_network ::
  "classified list \<Rightarrow> pin list \<Rightarrow> detected_component list \<Rightarrow> Connection list" where
  "build_connection_network electrical_connections component_pins detected_components =
     fold (\<lambda>conn connections.
             let comps = list_set (nearby_component_ids conn component_pins)
             in if length comps \<ge> 1 then connections @ [connection_of conn comps]
                else connections)
          electrical_connections []"

subsection \<open>Electrical node resolver\<close>

text \<open>
  The three local variables of \<open>_find_connected_pins\<close>: the result list, the set of
  processed pin ids and the queue.
\<close>

record bfs_state =
  connected_pins :: "pin list"
  processed :: "pystr set"
  queue :: "pin list"

text \<open>The innermost loop body: a pin of component \<open>cid\<close> that is not processed yet is taken.\<close>

definition visit_pin :: "pystr \<Rightarrow> pin \<Rightarrow> bfs_state \<Rightarrow> bfs_state" where
  "visit_pin cid p st =
     (if component_id p = cid \<and> pin_id p \<notin> processed st
      then st\<lparr> connected_pins := connected_pins st @ [p],
               processed := insert (pin_id p) (processed st),
               queue := queue st @ [p] \<rparr>
      else st)"

text \<open>\<open>for comp_id in connection.connected_components: if comp_id != current: for pin in all_pins\<close>.\<close>

definition scan_component :: "pin \<Rightarrow> pin list \<Rightarrow> pystr \<Rightarrow> bfs_state \<Rightarrow> bfs_state" where
  "scan_component current_pin all_pins cid st =
     (if cid \<noteq> component_id current_pin then fold (visit_pin cid) all_pins st else st)"

text \<open>\<open>for connection in connections: if current component in connection.connected_components\<close>.\<close>

definition scan_connection :: "pin \<Rightarrow> pin list \<Rightarrow> Connection \<Rightarrow> bfs_state \<Rightarrow> bfs_state" where
  "scan_connection current_pin all_pins connection st =
     (if component_id current_pin \<in> set (connected_components connection)
      then fold (scan_component current_pin all_pins) (connected_components connection) st
      else st)"

text \<open>One iteration of the \<open>while\<close> loop, after the current pin is popped.\<close>

definition expand_pin :: "pin \<Rightarrow> Connection list \<Rightarrow> pin list \<Rightarrow> bfs_state \<Rightarrow> bfs_state" where
  "expand_pin current_pin connections all_pins st =
     fold (scan_connection current_pin all_pins) connections st"

text \<open>
  The number of loop iterations still possible: every pin taken leaves the unprocessed
  pins and enters the queue once.
\<close>

definition bfs_measure :: "pin list \<Rightarrow> bfs_state \<Rightarrow> nat" where
  "bfs_measure all_pins st =
     2 * length (filter (\<lambda>p. pin_id p \<notin> processed st) all_pins) + length (queue st)"

text \<open>No step of an iteration increases the measure, and popping the queue decreases it.\<close>

lemma filter_length_drop:
  assumes "p \<in> set xs" and "pin_id p \<notin> S"
  shows "length (filter (\<lambda>q. pin_id q \<notin> insert (pin_id p) S) xs)
         < length (filter (\<lambda>q. pin_id q \<notin> S) xs)"
  using assms
proof (induction xs)
  case Nil
  then show ?case by simp
next
  case (Cons x xs)
  have le: "length (filter (\<lambda>q. pin_id q \<notin> insert (pin_id p) S) xs)
            \<le> length (filter (\<lambda>q. pin_id q \<notin> S) xs)"
    by (induction xs) auto
  show ?case
  proof (cases "x = p")
    case True
    with Cons.prems le show ?thesis by simp
  next
    case False
    with Cons have "length (filter (\<lambda>q. pin_id q \<notin> insert (pin_id p) S) xs)
                    < length (filter (\<lambda>q. pin_id q \<notin> S) xs)"
      by simp
    then show ?thesis by simp
  qed
qed

lemma visit_pin_measure:
  "p \<in> set all_pins \<Longrightarrow> bfs_measure all_pins (visit_pin cid p st) \<le> bfs_measure all_pins st"
  using filter_length_drop [where p = p and xs = all_pins and S = "processed st"]
  by (auto simp: visit_pin_def bfs_measure_def)

lemma fold_visit_measure:
  "set ps \<subseteq> set all_pins \<Longrightarrow>
   bfs_measure all_pins (fold (visit_pin cid) ps st) \<le> bfs_measure all_pins st"
proof (induction ps arbitrary: st)
  case Nil
  then show ?case by simp
next
  case (Cons p ps)
  have "bfs_measure all_pins (fold (visit_pin cid) ps (visit_pin cid p st))
        \<le> bfs_measure all_pins (visit_pin cid p st)"
    using Cons by simp
  also have "\<dots> \<le> bfs_measure all_pins st"
    using Cons.prems by (simp add: visit_pin_measure)
  finally show ?case by simp
qed

lemma scan_component_measure:
  "bfs_measure all_pins (scan_component cur all_pins cid st) \<le> bfs_measure all_pins st"
  by (simp add: scan_component_def fold_visit_measure)

lemma fold_scan_component_measure:
  "bfs_measure all_pins (fold (scan_component cur all_pins) cids st) \<le> bfs_measure all_pins st"
proof (induction cids arbitrary: st)
  case Nil
  then show ?case by simp
next
  case (Cons c cids)
  have "bfs_measure all_pins (fold (scan_component cur all_pins) cids (scan_component cur all_pins c st))
        \<le> bfs_measure all_pins (scan_component cur all_pins c st)"
    using Cons by simp
  also have "\<dots> \<le> bfs_measure all_pins st"
    by (rule scan_component_measure)
  finally show ?case by simp
qed

lemma scan_connection_measure:
  "bfs_measure all_pins (scan_connection cur all_pins c st) \<le> bfs_measure all_pins st"
  by (simp add: scan_connection_def fold_scan_component_measure)

lemma expand_pin_measure:
  "bfs_measure all_pins (expand_pin cur conns all_pins st) \<le> bfs_measure all_pins st"
  unfolding expand_pin_def
proof (induction conns arbitrary: st)
  case Nil
  then show ?case by simp
next
  case (Cons c conns)
  have "bfs_measure all_pins (fold (scan_connection cur all_pins) conns (scan_connection cur all_pins c st))
        \<le> bfs_measure all_pins (scan_connection cur all_pins c st)"
    using Cons by simp
  also have "\<dots> \<le> bfs_measure all_pins st"
    by (rule scan_connection_measure)
  finally show ?case by simp
qed

text \<open>The \<open>while queue:\<close> loop of \<open>_find_connected_pins\<close>.\<close>

function bfs_loop :: "Connection list \<Rightarrow> pin list \<Rightarrow> bfs_state \<Rightarrow> bfs_state" where
  "bfs_loop connections all_pins st =
     (case queue st of
        [] \<Rightarrow> st
      | current_pin # rest \<Rightarrow>
          bfs_loop connections all_pins
            (expand_pin current_pin connections all_pins (st\<lparr>queue := rest\<rparr>)))"
  by pat_completeness auto
termination
proof (relation "measure (\<lambda>(connections, all_pins, st). bfs_measure all_pins st)")
  show "wf (measure (\<lambda>(connections, all_pins, st). bfs_measure all_pins st))"
    by simp
next
  fix connections :: "Connection list" and all_pins :: "pin list" and st :: bfs_state
    and current_pin :: pin and rest :: "pin list"
  assume q: "queue st = current_pin # rest"
  have "bfs_measure all_pins (expand_pin current_pin connections all_pins (st\<lparr>queue := rest\<rparr>))
        \<le> bfs_measure all_pins (st\<lparr>queue := rest\<rparr>)"
    by (rule expand_pin_measure)
  also have "\<dots> < bfs_measure all_pins st"
    using q by (simp add: bfs_measure_def)
  finally show "((connections, all_pins,
                  expand_pin current_pin connections all_pins (st\<lparr>queue := rest\<rparr>)),
                 (connections, all_pins, st))
                \<in> measure (\<lambda>(connections, all_pins, st). bfs_measure all_pins st)"
    by simp
qed

declare bfs_loop.simps [simp del]

text \<open>\<open>_find_connected_pins\<close>.\<close>

definition find_connected_pins :: "pin \<Rightarrow> Connection list \<Rightarrow> pin list \<Rightarrow> pin list" where
  "find_connected_pins start_pin connections all_pins =
     connected_pins
       (bfs_loop connections all_pins
          \<lparr> connected_pins = [start_pin], processed = {pin_id start_pin}, queue = [start_pin] \<rparr>)"

text \<open>
  The node built from the non-empty list \<open>connected_pins\<close> (here \<open>members\<close>): the
  truncated mean position,
  the id \<open>node_<counter>\<close>, the distinct owners and the number of pins.
\<close>

definition make_node :: "nat \<Rightarrow> pin list \<Rightarrow> Node" where
  "make_node node_counter members =
     (let positions = map pin_position members;
          avg_x = real_of_int (sum_list (map fst positions)) / real (length positions);
          avg_y = real_of_int (sum_list (map snd positions)) / real (length positions)
      in \<lparr> position = (py_int avg_x, py_int avg_y),
           node_id = cps ''node_'' @ str_nat node_counter,
           node_components = list_set (map component_id members),
           connection_count = length members \<rparr>)"

text \<open>
  The state of the loop of \<open>_identify_electrical_nodes\<close>. A \<open>Node\<close> object keeps only the
  number and the owners of its pins, so the state also records, for each node, the list
  \<open>connected_pins\<close> it was built from (\<open>node_pins\<close>, in node order): these are the pins
  the node holds.
\<close>

record resolver_state =
  nodes :: "Node list"
  node_pins :: "pin list list"
  processed_pins :: "pystr set"
  node_counter :: nat

definition resolve_pin :: "Connection list \<Rightarrow> pin list \<Rightarrow> pin \<Rightarrow> resolver_state \<Rightarrow> resolver_state" where
  "resolve_pin connections component_pins p st =
     (if pin_id p \<in> processed_pins st then st
      else
        let members = find_connected_pins p connections component_pins
        in if members \<noteq> []
           then st\<lparr> nodes := nodes st @ [make_node (node_counter st) members],
                    node_pins := node_pins st @ [members],
                    node_counter := node_counter st + 1,
                    processed_pins :=
                      fold (\<lambda>q seen. insert (pin_id q) seen) members (processed_pins st) \<rparr>
           else st)"

definition resolve_all :: "Connection list \<Rightarrow> pin list \<Rightarrow> resolver_state" where
  "resolve_all connections component_pins =
     fold (resolve_pin connections component_pins) component_pins
       \<lparr> nodes = [], node_pins = [], processed_pins = {}, node_counter = 0 \<rparr>"

text \<open>\<open>_identify_electrical_nodes\<close>, and the pins of each of its nodes.\<close>

definition identify_electrical_nodes :: "Connection list \<Rightarrow> pin list \<Rightarrow> Node list" where
  "identify_electrical_nodes connections component_pins =
     nodes (resolve_all connections component_pins)"

definition electrical_node_pins :: "Connection list \<Rightarrow> pin list \<Rightarrow> pin list list" where
  "electrical_node_pins connections component_pins =
     node_pins (resolve_all connections component_pins)"

subsection \<open>Topology analyzer\<close>

type_synonym matrix = "nat list list"

text \<open>
  The dict comprehension \<open>{comp['id']: idx for idx, comp in enumerate(components)}\<close>:
  a later component with the same id overwrites the index.
\<close>

definition comp_id_to_idx :: "detected_component list \<Rightarrow> (pystr \<rightharpoonup> nat)" where
  "comp_id_to_idx components =
     fold (\<lambda>(idx, c) m. m(comp_id c \<mapsto> idx)) (enumerate 0 components) Map.empty"

text \<open>
  \<open>matrix[i][j] = 1\<close>. The indices come out of \<open>comp_id_to_idx\<close>, so they are below the
  dimension of the matrix (lemma \<open>comp_id_to_idx_bound\<close>).
\<close>

definition mark :: "matrix \<Rightarrow> nat \<Rightarrow> nat \<Rightarrow> matrix" where
  "mark m i j = m[i := (m ! i)[j := 1]]"

definition mark_pair :: "(pystr \<rightharpoonup> nat) \<Rightarrow> pystr \<Rightarrow> pystr \<Rightarrow> matrix \<Rightarrow> matrix" where
  "mark_pair idx comp_id_1 comp_id_2 m =
     (case idx comp_id_1 of
        None \<Rightarrow> m
      | Some idx1 \<Rightarrow>
          (case idx comp_id_2 of
             None \<Rightarrow> m
           | Some idx2 \<Rightarrow> mark (mark m idx1 idx2) idx2 idx1))"

text \<open>\<open>for i, comp_id_1 in enumerate(connected_comps): for comp_id_2 in connected_comps[i+1:]\<close>.\<close>

fun mark_pairs :: "(pystr \<rightharpoonup> nat) \<Rightarrow> pystr list \<Rightarrow> matrix \<Rightarrow> matrix" where
  "mark_pairs idx [] m = m"
| "mark_pairs idx (comp_id_1 # rest) m =
     mark_pairs idx rest (fold (mark_pair idx comp_id_1) rest m)"

text \<open>\<open>_build_connectivity_matrix\<close>.\<close>

definition build_connectivity_matrix ::
  "Connection list \<Rightarrow> detected_component list \<Rightarrow> matrix" where
  "build_connectivity_matrix connections components =
     (let n_components = length components;
          m0 = replicate n_components (replicate n_components 0);
          idx = comp_id_to_idx components
      in fold (\<lambda>connection m. mark_pairs idx (connected_components connection) m)
              connections m0)"

text \<open>
  \<open>_find_isolated_components\<close>. \<open>components[i]\<close> raises IndexError when the matrix has
  more rows than there are components.
\<close>

definition find_isolated_components ::
  "matrix \<Rightarrow> detected_component list \<Rightarrow> exn + pystr list" where
  "find_isolated_components connectivity_matrix components =
     fold (\<lambda>(i, row) acc.
             case acc of
               Inl e \<Rightarrow> Inl e
             | Inr isolated \<Rightarrow>
                 if sum_list row = 0
                 then (if i < length components
                       then Inr (isolated @ [comp_id (components ! i)])
                       else Inl (IndexError (cps ''list index out of range'')))
                 else Inr isolated)
          (enumerate 0 connectivity_matrix) (Inr [])"

text \<open>The entry \<open>isolated_components\<close> of \<open>_build_connection_matrix\<close>.\<close>

definition isolated_components ::
  "Connection list \<Rightarrow> detected_component list \<Rightarrow> exn + pystr list" where
  "isolated_components connections components =
     find_isolated_components (build_connectivity_matrix connections components) components"

record issue =
  issue_type :: pystr
  severity :: pystr
  message :: pystr

text \<open>\<open>_identify_potential_issues\<close>.\<close>

definition identify_potential_issues ::
  "Connection list \<Rightarrow> Node list \<Rightarrow> detected_component list \<Rightarrow> exn + issue list" where
  "identify_potential_issues connections nds components =
     (case find_isolated_components (build_connectivity_matrix connections components) components of
        Inl e \<Rightarrow> Inl e
      | Inr isolated \<Rightarrow>
          let issues1 =
                (if isolated \<noteq> []
                 then [\<lparr> issue_type = cps ''isolation'', severity = cps ''warning'',
                          message = cps ''Found '' @ str_nat (length isolated)
                            @ cps '' isolated components: '' @ py_join (cps '', '') isolated \<rparr>]
                 else []);
              high_degree_nodes = filter (\<lambda>n. connection_count n > 4) nds;
              issues2 =
                (if high_degree_nodes \<noteq> []
                 then issues1 @ [\<lparr> issue_type = cps ''high_connectivity'', severity = cps ''info'',
                          message = cps ''Found '' @ str_nat (length high_degree_nodes)
                            @ cps '' nodes with high connectivity (>4 connections)'' \<rparr>]
                 else issues1);
              short_connections =
                filter (\<lambda>c. dist_px (end_point c) (start_point c) < 10) connections;
              issues3 =
                (if short_connections \<noteq> []
                 then issues2 @ [\<lparr> issue_type = cps ''short_connections'', severity = cps ''info'',
                          message = cps ''Found '' @ str_nat (length short_connections)
                            @ cps '' very short connections (possible noise)'' \<rparr>]
                 else issues2)
          in Inr issues3)"

section \<open>Netlist generation (\<open>netlist_generator.py\<close>)\<close>

subsection \<open>The arguments of \<open>generate_spice_netlist\<close>\<close>

text \<open>
  The components reach the generator as Python objects. A field of a component dict is
  \<open>None\<close>, an integer or a string; an element of the list is a dict or some other
  object (which has no method \<open>get\<close>); the argument itself is a list or an object that
  cannot be iterated (\<open>NotIterable\<close>, with the name of its type).
\<close>

datatype pyval = PNone | PInt int | PStr pystr

datatype component_arg = Dict "(pystr \<times> pyval) list" | NotADict pyval

datatype components_arg = CompList "component_arg list" | NotIterable pystr

text \<open>\<open>str(v)\<close>, as an f-string formats a value, and the name of its type.\<close>

fun py_str :: "pyval \<Rightarrow> pystr" where
  "py_str PNone = cps ''None''"
| "py_str (PInt i) = str_int i"
| "py_str (PStr s) = s"

fun type_name :: "pyval \<Rightarrow> pystr" where
  "type_name PNone = cps ''NoneType''"
| "type_name (PInt i) = cps ''int''"
| "type_name (PStr s) = cps ''str''"

definition quoted :: "pystr \<Rightarrow> pystr" where
  "quoted s = [39] @ s @ [39]"

definition no_attribute :: "pyval \<Rightarrow> pystr \<Rightarrow> exn" where
  "no_attribute v attr =
     AttributeError (quoted (type_name v) @ cps '' object has no attribute '' @ quoted attr)"

text \<open>\<open>d.get(key, default)\<close>.\<close>

definition dict_get :: "(pystr \<times> pyval) list \<Rightarrow> pystr \<Rightarrow> pyval \<Rightarrow> pyval" where
  "dict_get d k dflt = (case map_of d k of Some v \<Rightarrow> v | None \<Rightarrow> dflt)"

text \<open>\<open>v.lower()\<close>: only a string has the method.\<close>

definition lower_of :: "pyval \<Rightarrow> exn + pystr" where
  "lower_of v = (case v of PStr s \<Rightarrow> Inr (py_lower s) | _ \<Rightarrow> Inl (no_attribute v (cps ''lower'')))"

text \<open>An entry of the result's list \<open>components\<close>.\<close>

record spice_entry =
  entry_designation :: pyval
  entry_type :: pyval
  entry_value :: pyval
  spice_line :: pystr

text \<open>
  The body of the inner \<open>try\<close> for one component; \<open>n\<close> is \<open>len(spice_components)\<close> at
  that point. \<open>Inl\<close> is the exception the body raises.
\<close>

definition process_component :: "nat \<Rightarrow> component_arg \<Rightarrow> exn + spice_entry" where
  "process_component n component =
     (case component of
        NotADict v \<Rightarrow> Inl (no_attribute v (cps ''get''))
      | Dict d \<Rightarrow>
          let designation = dict_get d (cps ''designation'') (PStr (cps ''COMP'' @ str_nat (n + 1)));
              component_type = dict_get d (cps ''component_type'') (PStr (cps ''unknown''));
              val = dict_get d (cps ''value'') (PStr (cps ''1''))
          in case lower_of component_type of
               Inl e \<Rightarrow> Inl e
             | Inr t \<Rightarrow>
                 let line =
                       (if t = cps ''resistor''
                          then cps ''R'' @ py_str designation @ cps '' N1 N2 '' @ py_str val
                        else if t = cps ''capacitor''
                          then cps ''C'' @ py_str designation @ cps '' N1 N2 '' @ py_str val
                        else if t = cps ''inductor''
                          then cps ''L'' @ py_str designation @ cps '' N1 N2 '' @ py_str val
                        else cps ''X'' @ py_str designation @ cps '' N1 N2 ''
                               @ py_str component_type)
                 in Inr \<lparr> entry_designation = designation, entry_type = component_type,
                          entry_value = val, spice_line = line \<rparr>)"

text \<open>
  The loop over the components: an exception of the body is caught by the inner
  \<open>except\<close>, logged, and the component is skipped.
\<close>

definition process_components ::
  "component_arg list \<Rightarrow> pystr list \<times> spice_entry list \<Rightarrow> pystr list \<times> spice_entry list" where
  "process_components comps acc =
     fold (\<lambda>component (netlist_lines, spice_components).
             case process_component (length spice_components) component of
               Inl e \<Rightarrow> (netlist_lines, spice_components)
             | Inr entry \<Rightarrow>
                 (netlist_lines @ [spice_line entry], spice_components @ [entry]))
          comps acc"

record netlist_metadata =
  generation_success :: bool
  total_components :: "nat option"
  error :: "pystr option"

record netlist_result =
  netlist :: pystr
  components :: "spice_entry list"
  node_mapping :: "pystr \<rightharpoonup> nat"
  analysis_commands :: "pystr list"
  metadata :: netlist_metadata

definition header_lines :: "pystr list" where
  "header_lines = [cps ''* Generated SPICE Netlist'', cps ''* Hardware AI Orchestrator'', []]"

text \<open>
  The body of the outer \<open>try\<close> of \<open>generate_spice_netlist\<close>. The arguments
  \<open>connections\<close> and \<open>nodes\<close> are not read.
\<close>

definition generate_body ::
  "components_arg \<Rightarrow> Connection list \<Rightarrow> Node list \<Rightarrow> exn + netlist_result" where
  "generate_body comps connections nds =
     (case comps of
        NotIterable tname \<Rightarrow> Inl (TypeError (quoted tname @ cps '' object is not iterable''))
      | CompList cs \<Rightarrow>
          (case process_components cs (header_lines, []) of
             (netlist_lines, spice_components) \<Rightarrow>
               Inr \<lparr> netlist = py_join [10] (netlist_lines @ [[], cps ''.op'', cps ''.end'']),
                      components = spice_components,
                      node_mapping = Map.empty,
                      analysis_commands = [cps ''.op''],
                      metadata = \<lparr> generation_success = True,
                                   total_components = Some (length spice_components),
                                   error = None \<rparr> \<rparr>))"

fun exn_str :: "exn \<Rightarrow> pystr" where
  "exn_str (AttributeError m) = m"
| "exn_str (TypeError m) = m"
| "exn_str (IndexError m) = m"

text \<open>The result of the outer \<open>except\<close> branch.\<close>

definition failure_result :: "exn \<Rightarrow> netlist_result" where
  "failure_result e =
     \<lparr> netlist = [],
       components = [],
       node_mapping = Map.empty,
       analysis_commands = [],
       metadata = \<lparr> generation_success = False, total_components = None,
                    error = Some (exn_str e) \<rparr> \<rparr>"

text \<open>
  \<open>NetlistGenerator.generate_spice_netlist\<close>: \<open>Inr\<close> is the returned dict, \<open>Inl\<close> an
  exception that leaves the method.
\<close>

definition generate_spice_netlist ::
  "components_arg \<Rightarrow> Connection list \<Rightarrow> Node list \<Rightarrow> exn + netlist_result" where
  "generate_spice_netlist comps connections nds =
     (case generate_body comps connections nds of
        Inr r \<Rightarrow> Inr r
      | Inl e \<Rightarrow> Inr (failure_result e))"

subsection \<open>Analysis directives\<close>

text \<open>The dataclass \<open>SPICEComponent\<close>.\<close>

record SPICEComponent =
  spice_name :: pystr
  component_type :: pystr
  spice_nodes :: "pystr list"
  spice_value :: "pystr option"
  spice_model :: "pystr option"
  parameters :: "(pystr \<times> pyval) list option"

text \<open>\<open>NetlistGenerator._generate_analysis_commands\<close>.\<close>

definition generate_analysis_commands :: "SPICEComponent list \<Rightarrow> pystr list" where
  "generate_analysis_commands spice_components =
     (let commands1 = [cps ''.op''];
          voltage_sources = filter (\<lambda>c. component_type c = cps ''V'') spice_components;
          commands2 = (if voltage_sources \<noteq> [] then commands1 @ [cps ''.dc V1 0 10 0.1'']
                       else commands1);
          reactive_components =
            filter (\<lambda>c. component_type c = cps ''C'' \<or> component_type c = cps ''L'')
              spice_components;
          commands3 = (if reactive_components \<noteq> [] then commands2 @ [cps ''.ac dec 10 1 1meg'']
                       else commands2)
      in commands3 @ [cps ''.tran 1n 1u''])"

section \<open>Predicates of the specification\<close>

subsection \<open>Connection classifier\<close>

text \<open>
  A segment is axis-aligned when it is within 15 degrees of horizontal or of vertical,
  whichever of its end points comes first: its signed angle, in degrees in
  \<open>(-180, 180]\<close>, is within 15 degrees of 0, of 90 or -90, or of 180 or -180.
\<close>

definition axis_aligned :: "real \<Rightarrow> bool" where
  "axis_aligned angle =
     (\<bar>angle\<bar> < 15 \<or> \<bar>angle - 90\<bar> < 15 \<or> \<bar>angle + 90\<bar> < 15
      \<or> \<bar>angle - 180\<bar> < 15 \<or> \<bar>angle + 180\<bar> < 15)"

text \<open>
  The confidence of the specification: 0.7, plus 0.2 for an axis-aligned segment, plus
  0.1 for a length above 30, plus 0.1 for a thickness of at most 3 with a continuity
  above 0.8, and at most 1.
\<close>

definition spec_confidence :: "real \<Rightarrow> real \<Rightarrow> real \<Rightarrow> real \<Rightarrow> real" where
  "spec_confidence angle len thickness continuity =
     min 1 (0.7 + (if axis_aligned angle then 0.2 else 0)
                + (if len > 30 then 0.1 else 0)
                + (if thickness \<le> 3 \<and> continuity > 0.8 then 0.1 else 0))"

subsection \<open>Pin locator and network builder\<close>

text \<open>
  A two-terminal passive component, and its left and right midpoints, where the pin
  locator puts its two pins.
\<close>

definition two_terminal :: "detected_component \<Rightarrow> bool" where
  "two_terminal r =
     (comp_type r = Some (cps ''resistor'') \<or> comp_type r = Some (cps ''inductor'')
      \<or> comp_type r = Some (cps ''capacitor''))"

definition left_point :: "detected_component \<Rightarrow> point" where
  "left_point r = (case bbox r of (x1, y1, x2, y2) \<Rightarrow> (py_int x1, py_int ((y1 + y2) / 2)))"

definition right_point :: "detected_component \<Rightarrow> point" where
  "right_point r = (case bbox r of (x1, y1, x2, y2) \<Rightarrow> (py_int x2, py_int ((y1 + y2) / 2)))"

text \<open>
  A pin is within the proximity threshold of a segment when its Euclidean distance to
  the start point or to the end point is at most 25 pixels: the threshold is the
  maximum distance at which an end point still touches a pin.
\<close>

definition within_threshold :: "classified \<Rightarrow> pin \<Rightarrow> bool" where
  "within_threshold s p =
     (dist_px (seg_start_point s) (pin_position p) \<le> 25
      \<or> dist_px (seg_end_point s) (pin_position p) \<le> 25)"

text \<open>
  A pin is strictly near a segment when its squared pixel distance to the start point
  or to the end point is below \<open>25\<^sup>2\<close>: the Euclidean distance is strictly below 25
  pixels, which leaves out a pin at exactly 25 pixels.
\<close>

definition strictly_near :: "classified \<Rightarrow> pin \<Rightarrow> bool" where
  "strictly_near s p =
     ((fst (seg_start_point s) - fst (pin_position p))\<^sup>2
        + (snd (seg_start_point s) - snd (pin_position p))\<^sup>2 < 625
      \<or> (fst (seg_end_point s) - fst (pin_position p))\<^sup>2
        + (snd (seg_end_point s) - snd (pin_position p))\<^sup>2 < 625)"

text \<open>The pins strictly near a segment, in pin order.\<close>

definition nearby_pins :: "classified \<Rightarrow> pin list \<Rightarrow> pin list" where
  "nearby_pins s component_pins = filter (strictly_near s) component_pins"

subsection \<open>Electrical node resolver\<close>

text \<open>
  Adjacency of pins as \<open>_find_connected_pins\<close> walks it: \<open>q\<close> is adjacent to \<open>p\<close> when
  some connection names the components of both and the two components differ. The
  relation \<open>wired\<close> restricts it to the pins of the list.
\<close>

definition adjacent :: "Connection list \<Rightarrow> pin \<Rightarrow> pin \<Rightarrow> bool" where
  "adjacent connections p q =
     (\<exists>c\<in>set connections.
        component_id p \<in> set (connected_components c)
        \<and> component_id q \<in> set (connected_components c)
        \<and> component_id q \<noteq> component_id p)"

definition neighbours :: "Connection list \<Rightarrow> pin list \<Rightarrow> pin \<Rightarrow> pin set" where
  "neighbours connections all_pins p = {q \<in> set all_pins. adjacent connections p q}"

definition wired :: "Connection list \<Rightarrow> pin list \<Rightarrow> (pin \<times> pin) set" where
  "wired connections all_pins =
     {(p, q). p \<in> set all_pins \<and> q \<in> neighbours connections all_pins p}"

text \<open>Two pins share a node when the pin list of some node holds both.\<close>

definition share_node :: "Connection list \<Rightarrow> pin list \<Rightarrow> pin \<Rightarrow> pin \<Rightarrow> bool" where
  "share_node connections all_pins p q =
     list_ex (\<lambda>g. p \<in> set g \<and> q \<in> set g) (electrical_node_pins connections all_pins)"

text \<open>
  \<open>grows A st st'\<close>: the state \<open>st'\<close> is \<open>st\<close> with new pins of \<open>A\<close>, with fresh and
  distinct ids, appended to the result and to the queue and recorded as processed.
\<close>

definition grows :: "pin set \<Rightarrow> bfs_state \<Rightarrow> bfs_state \<Rightarrow> bool" where
  "grows A st st' =
     (\<exists>new. connected_pins st' = connected_pins st @ new
        \<and> queue st' = queue st @ new
        \<and> processed st' = processed st \<union> pin_id ` set new
        \<and> set new \<subseteq> A
        \<and> distinct (map pin_id new)
        \<and> pin_id ` set new \<inter> processed st = {})"

text \<open>The invariant of the \<open>while\<close> loop of \<open>_find_connected_pins\<close>.\<close>

definition bfs_inv :: "Connection list \<Rightarrow> pin list \<Rightarrow> pin \<Rightarrow> bfs_state \<Rightarrow> bool" where
  "bfs_inv connections all_pins start_pin st =
     (set (connected_pins st) \<subseteq> set all_pins
      \<and> processed st = pin_id ` set (connected_pins st)
      \<and> distinct (map pin_id (connected_pins st))
      \<and> set (queue st) \<subseteq> set (connected_pins st)
      \<and> start_pin \<in> set (connected_pins st)
      \<and> set (connected_pins st) \<subseteq> (wired connections all_pins)\<^sup>* `` {start_pin}
      \<and> (\<Union>p \<in> set (connected_pins st) - set (queue st). neighbours connections all_pins p)
          \<subseteq> set (connected_pins st))"

text \<open>
  The invariant of the loop of \<open>_identify_electrical_nodes\<close>, after the pins \<open>seen\<close>:
  the processed ids are those of the pins in the nodes, every node holds the pins that
  one pin reaches, no pin is in the nodes twice, every pin seen is in a node, and the
  nodes are built from their pin lists, numbered from 0.
\<close>

definition resolver_inv ::
  "Connection list \<Rightarrow> pin list \<Rightarrow> pin set \<Rightarrow> resolver_state \<Rightarrow> bool" where
  "resolver_inv connections all_pins seen st =
     (processed_pins st = pin_id ` set (concat (node_pins st))
      \<and> (\<forall>g\<in>set (node_pins st).
            \<exists>p\<in>set all_pins. set g = (wired connections all_pins)\<^sup>* `` {p})
      \<and> distinct (concat (node_pins st))
      \<and> seen \<subseteq> set (concat (node_pins st))
      \<and> nodes st = map (\<lambda>(k, g). make_node k g) (enumerate 0 (node_pins st))
      \<and> node_counter st = length (node_pins st))"

subsection \<open>Netlist generation\<close>

text \<open>
  A device line that names the fixed node tokens: a kind letter, the designation, the
  literal text \<open>N1 N2\<close> between blanks, and an operand.
\<close>

definition fixed_node_line :: "spice_entry \<Rightarrow> bool" where
  "fixed_node_line e =
     (\<exists>kind operand. kind \<in> {cps ''R'', cps ''C'', cps ''L'', cps ''X''}
        \<and> spice_line e = kind @ py_str (entry_designation e) @ cps '' N1 N2 '' @ operand)"

text \<open>
  A component that the loop body processes without an exception: a dict whose
  \<open>component_type\<close>, when present, is a string.
\<close>

definition processable :: "component_arg \<Rightarrow> bool" where
  "processable component =
     (case component of
        NotADict v \<Rightarrow> False
      | Dict d \<Rightarrow>
          (case dict_get d (cps ''component_type'') (PStr (cps ''unknown'')) of
             PStr t \<Rightarrow> True
           | _ \<Rightarrow> False))"

text \<open>
  The device entry of a processable component dict, when \<open>n\<close> devices precede it: its
  designation (by default \<open>COMP\<close> and the number of the device), its type (by default
  \<open>unknown\<close>) and its value (by default \<open>1\<close>), and the device line: the kind letter of
  the type, the designation, the node tokens and the value, or the type for the kind
  \<open>X\<close>.
\<close>

definition device_kind :: "pystr \<Rightarrow> pystr" where
  "device_kind t =
     (if py_lower t = cps ''resistor'' then cps ''R''
      else if py_lower t = cps ''capacitor'' then cps ''C''
      else if py_lower t = cps ''inductor'' then cps ''L''
      else cps ''X'')"

definition expected_entry :: "nat \<Rightarrow> (pystr \<times> pyval) list \<Rightarrow> spice_entry" where
  "expected_entry n d =
     (let designation = dict_get d (cps ''designation'') (PStr (cps ''COMP'' @ str_nat (n + 1)));
          ctype = dict_get d (cps ''component_type'') (PStr (cps ''unknown''));
          val = dict_get d (cps ''value'') (PStr (cps ''1''));
          kind = device_kind (py_str ctype)
      in \<lparr> entry_designation = designation, entry_type = ctype, entry_value = val,
           spice_line = kind @ py_str designation @ cps '' N1 N2 ''
                          @ (if kind = cps ''X'' then py_str ctype else py_str val) \<rparr>)"

text \<open>
  The devices of a list of components, when \<open>n\<close> devices precede them: the entries of
  the processable components, in input order; the other components are left out.
\<close>

fun expected_devices :: "nat \<Rightarrow> component_arg list \<Rightarrow> spice_entry list" where
  "expected_devices n [] = []"
| "expected_devices n (NotADict v # cs) = expected_devices n cs"
| "expected_devices n (Dict d # cs) =
     (if processable (Dict d) then expected_entry n d # expected_devices (Suc n) cs
      else expected_devices n cs)"

text \<open>The body of the loop of \<open>process_components\<close>, on the pair of accumulators.\<close>

definition step :: "component_arg \<Rightarrow> pystr list \<times> spice_entry list \<Rightarrow> pystr list \<times> spice_entry list" where
  "step component acc =
     (case acc of (netlist_lines, spice_components) \<Rightarrow>
        case process_component (length spice_components) component of
          Inl e \<Rightarrow> (netlist_lines, spice_components)
        | Inr entry \<Rightarrow> (netlist_lines @ [spice_line entry], spice_components @ [entry]))"

section \<open>Example inputs\<close>

text \<open>
  Two resistors in series: \<open>R1\<close> with the bounding box (0, 0, 40, 20), \<open>R2\<close> with
  (100, 0, 140, 20), and a horizontal wire from (45, 10) to (95, 10). The right pin of
  \<open>R1\<close> is at (40, 10) and the left pin of \<open>R2\<close> at (100, 10), each 5 pixels from an
  end of the wire; the outer pins are 45 pixels away.
\<close>

definition series_R1 :: detected_component where
  "series_R1 = \<lparr> comp_id = cps ''R1'', bbox = (0, 0, 40, 20), comp_type = Some (cps ''resistor'') \<rparr>"

definition series_R2 :: detected_component where
  "series_R2 = \<lparr> comp_id = cps ''R2'', bbox = (100, 0, 140, 20), comp_type = Some (cps ''resistor'') \<rparr>"

definition series_wire :: classified where
  "series_wire =
     \<lparr> seg_id = cps ''conn_0'', seg_start_point = (45, 10), seg_end_point = (95, 10),
       seg_connection_type = cps ''wire'', seg_confidence = 1,
       prop_length = 50, prop_angle = 0, prop_thickness = 2, prop_continuity = 1 \<rparr>"

definition series_pins :: "pin list" where
  "series_pins = extract_component_pins [series_R1, series_R2]"

definition series_connections :: "Connection list" where
  "series_connections = build_connection_network [series_wire] series_pins [series_R1, series_R2]"

text \<open>
  A second detected component with the id \<open>R1\<close>, elsewhere in the image: its pins get
  the pin ids of the pins of \<open>series_R1\<close>.
\<close>

definition duplicate_R1 :: detected_component where
  "duplicate_R1 = \<lparr> comp_id = cps ''R1'', bbox = (200, 0, 240, 20), comp_type = Some (cps ''resistor'') \<rparr>"

text \<open>
  A pin at (40, 10) and a wire from (200, 30) to (55, 30): the pin is exactly 25 pixels
  from the end of the wire (15 across, 20 down) and far from its start.
\<close>

definition boundary_pin :: pin where
  "boundary_pin =
     \<lparr> pin_id = cps ''R1_pin_1'', component_id = cps ''R1'', pin_position = (40, 10),
       pin_number = 2, pin_component_type = cps ''resistor'' \<rparr>"

definition boundary_wire :: classified where
  "boundary_wire =
     \<lparr> seg_id = cps ''conn_0'', seg_start_point = (200, 30), seg_end_point = (55, 30),
       seg_connection_type = cps ''wire'', seg_confidence = 1,
       prop_length = 145, prop_angle = 180, prop_thickness = 2, prop_continuity = 1 \<rparr>"

text \<open>
  A vertical wire of 130 pixels given from its lower end, (150, 150), to its upper end,
  (150, 20), and the same wire given from its upper end; on the image the wire is thin
  and unbroken (thickness 2, continuity 1).
\<close>

definition upward_wire :: segment where
  "upward_wire = (150, 150, 150, 20)"

definition downward_wire :: segment where
  "downward_wire = (150, 20, 150, 150)"

definition thin_line :: "segment \<Rightarrow> real" where
  "thin_line seg = 2"

definition unbroken_line :: "segment \<Rightarrow> real" where
  "unbroken_line seg = 1"

section \<open>Proofs\<close>

subsection \<open>Value normalisation\<close>

text \<open>
  C5. The value round-trip table: resistance parsing maps \<open>10k\<Omega>\<close> (with U+03A9) to
  \<open>10k\<close>, capacitance parsing maps \<open>100\<mu>F\<close> (with U+03BC) to \<open>100u\<close> and \<open>22pF\<close> to
  \<open>22p\<close>, and voltage parsing maps \<open>5V\<close> to \<open>5\<close>.
\<close>

theorem value_round_trip_table:
  "parse_resistance_value (cps ''10k'' @ [OMEGA]) = cps ''10k''
   \<and> parse_capacitance_value (cps ''100'' @ [MU] @ cps ''F'') = cps ''100u''
   \<and> parse_capacitance_value (cps ''22pF'') = cps ''22p''
   \<and> parse_voltage_value (cps ''5V'') = cps ''5''"
  by (simp add: parse_resistance_value_def parse_capacitance_value_def parse_voltage_value_def
      capacitance_multiplier_map_def OMEGA_def MU_def cps_def Let_def py_lower_def lower_cp_def)

subsection \<open>Loops over lists\<close>

lemma fold_append_if:
  "fold (\<lambda>x acc. if P x then acc @ [f x] else acc) xs acc = acc @ map f (filter P xs)"
  by (induction xs arbitrary: acc) auto

lemma fold_append_each:
  "fold (\<lambda>x acc. acc @ f x) xs acc = acc @ concat (map f xs)"
  by (induction xs arbitrary: acc) auto

lemma fold_invariant:
  "P s \<Longrightarrow> (\<And>x s. x \<in> set xs \<Longrightarrow> P s \<Longrightarrow> P (f x s)) \<Longrightarrow> P (fold f xs s)"
  by (induction xs arbitrary: s) simp_all

subsection \<open>Connection classifier\<close>

lemma classify_line_segments_eq:
  "classify_line_segments th co segs =
     map (\<lambda>(i, seg). classify_segment th co i seg) (enumerate 0 segs)"
proof -
  have "classify_line_segments th co segs =
          fold (\<lambda>x acc. acc @ (case x of (i, seg) \<Rightarrow> [classify_segment th co i seg]))
               (enumerate 0 segs) []"
    unfolding classify_line_segments_def
    by (rule arg_cong [where f = "\<lambda>f. fold f (enumerate 0 segs) []"]) (auto simp: fun_eq_iff)
  also have "\<dots> = concat (map (\<lambda>x. case x of (i, seg) \<Rightarrow> [classify_segment th co i seg])
                              (enumerate 0 segs))"
    by (simp add: fold_append_each)
  also have "\<dots> = map (\<lambda>(i, seg). classify_segment th co i seg) (enumerate 0 segs)"
    by (induction segs rule: rev_induct) (auto simp: enumerate_append_eq)
  finally show ?thesis .
qed

lemma classify_segment_fields:
  "classify_segment th co i (x1, y1, x2, y2) =
     \<lparr> seg_id = cps ''conn_'' @ str_nat i,
       seg_start_point = (x1, y1),
       seg_end_point = (x2, y2),
       seg_connection_type = cps ''wire'',
       seg_confidence =
         min (boosted_confidence
                (arctan2 (real_of_int (y2 - y1)) (real_of_int (x2 - x1)) * 180 / pi)
                (sqrt (real_of_int ((x2 - x1)\<^sup>2 + (y2 - y1)\<^sup>2)))
                (th (x1, y1, x2, y2)) (co (x1, y1, x2, y2)))
             1,
       prop_length = sqrt (real_of_int ((x2 - x1)\<^sup>2 + (y2 - y1)\<^sup>2)),
       prop_angle = arctan2 (real_of_int (y2 - y1)) (real_of_int (x2 - x1)) * 180 / pi,
       prop_thickness = th (x1, y1, x2, y2),
       prop_continuity = co (x1, y1, x2, y2) \<rparr>"
  unfolding classify_segment_def Let_def by simp

lemma boosted_confidence_range:
  "0.7 \<le> min (boosted_confidence a l t c) 1 \<and> min (boosted_confidence a l t c) 1 \<le> 1"
  by (simp add: boosted_confidence_def Let_def)

text \<open>
  What holds of the classifier for every input: one record per segment, in input
  order, each with a confidence between 0.7 and 1.
\<close>

lemma classify_line_segments_records:
  "classify_line_segments th co segs =
     map (\<lambda>(i, seg). classify_segment th co i seg) (enumerate 0 segs)
   \<and> length (classify_line_segments th co segs) = length segs
   \<and> 0.7 \<le> seg_confidence (classify_segment th co i seg)
   \<and> seg_confidence (classify_segment th co i seg) \<le> 1"
proof (intro conjI)
  show "classify_line_segments th co segs =
     map (\<lambda>(i, seg). classify_segment th co i seg) (enumerate 0 segs)"
    by (rule classify_line_segments_eq)
  show "length (classify_line_segments th co segs) = length segs"
    by (simp add: classify_line_segments_eq)
  obtain a b c d where seg: "seg = (a, b, c, d)"
    by (cases seg)
  show "0.7 \<le> seg_confidence (classify_segment th co i seg)"
    unfolding seg classify_segment_fields using boosted_confidence_range by simp
  show "seg_confidence (classify_segment th co i seg) \<le> 1"
    unfolding seg classify_segment_fields using boosted_confidence_range by simp
qed

text \<open>
  The confidence of the code is the confidence of the specification when the signed
  angle is at least -75 degrees: the test of the code covers the angles around 0, 90
  and 180, and misses those around -90 and -180.
\<close>

lemma boosted_confidence_agrees:
  "- 75 \<le> a \<Longrightarrow> min (boosted_confidence a l t c) 1 = spec_confidence a l t c"
  by (simp add: boosted_confidence_def spec_confidence_def axis_aligned_def Let_def)

lemma sqrt_16900: "sqrt 16900 = 130"
  using real_sqrt_abs [of 130] by simp

lemma upward_wire_record:
  "classify_segment thin_line unbroken_line 0 upward_wire =
     \<lparr> seg_id = cps ''conn_'' @ str_nat 0,
       seg_start_point = (150, 150),
       seg_end_point = (150, 20),
       seg_connection_type = cps ''wire'',
       seg_confidence = 0.9,
       prop_length = 130,
       prop_angle = - 90,
       prop_thickness = 2,
       prop_continuity = 1 \<rparr>"
  by (simp add: classify_segment_fields upward_wire_def arctan2_def sqrt_16900
      boosted_confidence_def thin_line_def unbroken_line_def)

lemma downward_wire_record:
  "classify_segment thin_line unbroken_line 0 downward_wire =
     \<lparr> seg_id = cps ''conn_'' @ str_nat 0,
       seg_start_point = (150, 20),
       seg_end_point = (150, 150),
       seg_connection_type = cps ''wire'',
       seg_confidence = 1,
       prop_length = 130,
       prop_angle = 90,
       prop_thickness = 2,
       prop_continuity = 1 \<rparr>"
  by (simp add: classify_segment_fields downward_wire_def arctan2_def sqrt_16900
      boosted_confidence_def thin_line_def unbroken_line_def)

text \<open>
  C7 on a vertical wire given from its lower end. Its angle is -90 degrees: the wire is
  axis-aligned, and with its length of 130 and its thin, unbroken line the specified
  confidence is 1. The test of the code, on the absolute differences of the signed
  angle to 0, 90 and 180, misses -90: the classifier gives 0.9, without the boost of
  0.2, while the same wire given from its upper end gets 1.
\<close>

theorem upward_vertical_wire_not_boosted:
  "prop_angle (classify_segment thin_line unbroken_line 0 upward_wire) = - 90
   \<and> prop_length (classify_segment thin_line unbroken_line 0 upward_wire) = 130
   \<and> axis_aligned (- 90)
   \<and> spec_confidence (- 90) 130 (thin_line upward_wire) (unbroken_line upward_wire) = 1
   \<and> seg_confidence (classify_segment thin_line unbroken_line 0 upward_wire) = 0.9
   \<and> seg_confidence (classify_segment thin_line unbroken_line 0 downward_wire) = 1"
  by (simp add: upward_wire_record downward_wire_record axis_aligned_def spec_confidence_def
      thin_line_def unbroken_line_def)

subsection \<open>Pin locator\<close>

lemma extract_component_pins_eq:
  "extract_component_pins cs = concat (map pins_of_component cs)"
  by (simp add: extract_component_pins_def fold_append_each)

lemma py_int_numeral [simp]: "py_int (numeral n) = numeral n" "py_int 0 = 0" "py_int 1 = 1"
  by (simp_all add: py_int_def)

lemma pins_of_two_terminal:
  assumes "two_terminal r"
  shows "pins_of_component r =
     [\<lparr> pin_id = comp_id r @ cps ''_pin_'' @ str_nat 0, component_id = comp_id r,
        pin_position = left_point r, pin_number = 1,
        pin_component_type = the (comp_type r) \<rparr>,
      \<lparr> pin_id = comp_id r @ cps ''_pin_'' @ str_nat 1, component_id = comp_id r,
        pin_position = right_point r, pin_number = 2,
        pin_component_type = the (comp_type r) \<rparr>]"
proof -
  obtain x1 y1 x2 y2 where b: "bbox r = (x1, y1, x2, y2)"
    by (cases "bbox r")
  from assms consider "comp_type r = Some (cps ''resistor'')"
    | "comp_type r = Some (cps ''inductor'')" | "comp_type r = Some (cps ''capacitor'')"
    unfolding two_terminal_def by blast
  then show ?thesis
  proof cases
    case 1
    then show ?thesis
      by (simp add: pins_of_component_def get_component_pin_locations_def b left_point_def
          right_point_def Let_def)
  next
    case 2
    then show ?thesis
      by (simp add: pins_of_component_def get_component_pin_locations_def b left_point_def
          right_point_def Let_def)
  next
    case 3
    have "cps ''capacitor'' \<noteq> cps ''resistor''" "cps ''capacitor'' \<noteq> cps ''inductor''"
      by (simp_all add: cps_def)
    with 3 show ?thesis
      by (simp add: pins_of_component_def get_component_pin_locations_def b left_point_def
          right_point_def Let_def)
  qed
qed


lemma series_pins_R1:
  "extract_component_pins [series_R1] =
     [\<lparr> pin_id = cps ''R1_pin_0'', component_id = cps ''R1'', pin_position = (0, 10),
        pin_number = 1, pin_component_type = cps ''resistor'' \<rparr>,
      \<lparr> pin_id = cps ''R1_pin_1'', component_id = cps ''R1'', pin_position = (40, 10),
        pin_number = 2, pin_component_type = cps ''resistor'' \<rparr>]"
  by (simp add: extract_component_pins_def pins_of_component_def get_component_pin_locations_def
      series_R1_def enumerate_eq_zip Let_def str_nat.simps cps_def)

lemma series_ids: "comp_id series_R1 = cps ''R1''" "comp_id series_R2 = cps ''R2''"
  by (simp_all add: series_R1_def series_R2_def)

subsection \<open>Connection network builder\<close>

lemma sqrt_less_25: "0 \<le> x \<Longrightarrow> (sqrt x < 25) = (x < 625)"
proof -
  have "sqrt 625 = 25"
    using real_sqrt_abs [of 25] by simp
  then show ?thesis
    using real_sqrt_less_iff [of x 625] by simp
qed

lemma dist_px_near:
  "(dist_px a b < proximity_threshold) = ((fst a - fst b)\<^sup>2 + (snd a - snd b)\<^sup>2 < 625)"
proof -
  have "(0::real) \<le> real_of_int ((fst a - fst b)\<^sup>2 + (snd a - snd b)\<^sup>2)"
    by simp
  from sqrt_less_25 [OF this] show ?thesis
    unfolding dist_px_def proximity_threshold_def
    by (metis of_int_less_iff of_int_numeral)
qed

lemma nearby_component_ids_eq:
  "nearby_component_ids s pins = map component_id (nearby_pins s pins)"
proof -
  have "nearby_component_ids s pins =
        fold (\<lambda>p acc. if strictly_near s p then acc @ [component_id p] else acc) pins []"
    unfolding nearby_component_ids_def strictly_near_def dist_px_near ..
  then show ?thesis
    by (simp add: fold_append_if nearby_pins_def)
qed

lemma build_connection_network_eq:
  "build_connection_network segs pins comps =
     map (\<lambda>s. connection_of s (list_set (map component_id (nearby_pins s pins))))
         (filter (\<lambda>s. nearby_pins s pins \<noteq> []) segs)"
proof -
  let ?f = "\<lambda>s. connection_of s (list_set (map component_id (nearby_pins s pins)))"
  let ?P = "\<lambda>s. nearby_pins s pins \<noteq> []"
  have len: "\<And>xs :: pystr list. (1 \<le> length (list_set xs)) = (xs \<noteq> [])"
    by (simp add: list_set_def Suc_le_eq)
  have "build_connection_network segs pins comps =
          fold (\<lambda>s acc. if ?P s then acc @ [?f s] else acc) segs []"
    unfolding build_connection_network_def nearby_component_ids_eq Let_def len
    by simp
  then show ?thesis
    by (simp add: fold_append_if)
qed

lemma remdups_single:
  "xs \<noteq> [] \<Longrightarrow> list_all (\<lambda>x. x = c) xs \<Longrightarrow> remdups xs = [c]"
proof (induction xs)
  case Nil
  then show ?case by simp
next
  case (Cons x xs)
  show ?case
  proof (cases xs)
    case Nil
    with Cons.prems show ?thesis by simp
  next
    case (Cons y ys)
    with Cons.IH Cons.prems have "remdups xs = [c]" by simp
    moreover have "x \<in> set xs"
      using Cons Cons.prems by (auto simp: list_all_iff)
    ultimately show ?thesis by simp
  qed
qed

text \<open>
  C6, with the strict test of the code. The network builder keeps exactly the segments
  that have a pin strictly near an end point (distance below 25), in input order; the \<open>connected_components\<close> of the
  connection of a segment are the owners of its nearby pins, without duplicates; a
  segment whose nearby pins all belong to one component \<open>c\<close> gives a connection with
  the single component \<open>c\<close>, and a segment with no nearby pin gives no connection.
\<close>

theorem build_connection_network_spec:
  "build_connection_network segs pins comps =
     map (\<lambda>s. connection_of s (list_set (map component_id (nearby_pins s pins))))
         (filter (\<lambda>s. nearby_pins s pins \<noteq> []) segs)
   \<and> set (connected_components
             (connection_of s (list_set (map component_id (nearby_pins s pins)))))
       = component_id ` {p \<in> set pins. strictly_near s p}
   \<and> distinct (connected_components
             (connection_of s (list_set (map component_id (nearby_pins s pins)))))
   \<and> (nearby_pins s pins \<noteq> [] \<longrightarrow>
        list_all (\<lambda>p. component_id p = c) (nearby_pins s pins) \<longrightarrow>
        build_connection_network [s] pins comps = [connection_of s [c]])
   \<and> (nearby_pins s pins = [] \<longrightarrow> build_connection_network [s] pins comps = [])"
proof (intro conjI impI)
  show "build_connection_network segs pins comps =
     map (\<lambda>s. connection_of s (list_set (map component_id (nearby_pins s pins))))
         (filter (\<lambda>s. nearby_pins s pins \<noteq> []) segs)"
    by (rule build_connection_network_eq)
  show "set (connected_components
             (connection_of s (list_set (map component_id (nearby_pins s pins)))))
       = component_id ` {p \<in> set pins. strictly_near s p}"
    by (simp add: connection_of_def list_set_def nearby_pins_def)
  show "distinct (connected_components
             (connection_of s (list_set (map component_id (nearby_pins s pins)))))"
    by (simp add: connection_of_def list_set_def)
next
  assume ne: "nearby_pins s pins \<noteq> []"
    and one: "list_all (\<lambda>p. component_id p = c) (nearby_pins s pins)"
  have "list_all (\<lambda>x. x = c) (map component_id (nearby_pins s pins))"
    using one by (simp add: list_all_iff)
  with ne have "list_set (map component_id (nearby_pins s pins)) = [c]"
    unfolding list_set_def by (intro remdups_single) simp_all
  with ne show "build_connection_network [s] pins comps = [connection_of s [c]]"
    by (simp add: build_connection_network_eq)
next
  assume "nearby_pins s pins = []"
  then show "build_connection_network [s] pins comps = []"
    by (simp add: build_connection_network_eq)
qed

lemma series_nearby_R1:
  "nearby_pins series_wire (extract_component_pins [series_R1]) =
     [\<lparr> pin_id = cps ''R1_pin_1'', component_id = cps ''R1'', pin_position = (40, 10),
        pin_number = 2, pin_component_type = cps ''resistor'' \<rparr>]"
  by (simp add: series_pins_R1 nearby_pins_def strictly_near_def series_wire_def)

text \<open>
  The dangling wire: with \<open>R1\<close> alone, the wire is near the right pin of \<open>R1\<close> only and
  gives a connection with the single component \<open>R1\<close>; with no pin it is dropped.
\<close>

theorem build_connection_network_witness:
  "nearby_pins series_wire (extract_component_pins [series_R1]) \<noteq> []
   \<and> list_all (\<lambda>p. component_id p = cps ''R1'')
        (nearby_pins series_wire (extract_component_pins [series_R1]))
   \<and> build_connection_network [series_wire] (extract_component_pins [series_R1]) [series_R1]
       = [connection_of series_wire [cps ''R1'']]
   \<and> nearby_pins series_wire [] = []
   \<and> build_connection_network [series_wire] [] [] = []"
proof -
  have h1: "nearby_pins series_wire (extract_component_pins [series_R1]) \<noteq> []"
    by (simp add: series_nearby_R1)
  have h2: "list_all (\<lambda>p. component_id p = cps ''R1'')
              (nearby_pins series_wire (extract_component_pins [series_R1]))"
    by (simp add: series_nearby_R1)
  have h3: "nearby_pins series_wire [] = []"
    by (simp add: nearby_pins_def)
  from build_connection_network_spec
         [where s = series_wire and pins = "extract_component_pins [series_R1]"
            and c = "cps ''R1''" and comps = "[series_R1]" and segs = "[]"] h1 h2
  have c1: "build_connection_network [series_wire] (extract_component_pins [series_R1]) [series_R1]
            = [connection_of series_wire [cps ''R1'']]"
    by blast
  from build_connection_network_spec
         [where s = series_wire and pins = "[]" and c = "[]" and comps = "[]" and segs = "[]"] h3
  have c2: "build_connection_network [series_wire] [] [] = []"
    by blast
  from h1 h2 c1 h3 c2 show ?thesis by blast
qed

lemma sqrt_625: "sqrt 625 = 25"
  using real_sqrt_abs [of 25] by simp

text \<open>
  C6, as stated for the pins within the threshold, fails at the threshold itself. The
  pin at (40, 10) is exactly 25 pixels from the end (55, 30) of the wire, so it is
  within the threshold; the test of the code is strict, the wire has no nearby pin and
  gives no connection.
\<close>

theorem boundary_pin_counterexample:
  "dist_px (seg_end_point boundary_wire) (pin_position boundary_pin) = proximity_threshold
   \<and> within_threshold boundary_wire boundary_pin
   \<and> nearby_component_ids boundary_wire [boundary_pin] = []
   \<and> build_connection_network [boundary_wire] [boundary_pin] [] = []"
proof -
  have d: "dist_px (seg_end_point boundary_wire) (pin_position boundary_pin) = 25"
    by (simp add: dist_px_def boundary_wire_def boundary_pin_def sqrt_625)
  have n: "nearby_pins boundary_wire [boundary_pin] = []"
    by (simp add: nearby_pins_def strictly_near_def boundary_wire_def boundary_pin_def)
  from d have "within_threshold boundary_wire boundary_pin"
    by (simp add: within_threshold_def)
  moreover from n have "nearby_component_ids boundary_wire [boundary_pin] = []"
    by (simp add: nearby_component_ids_eq)
  moreover from n have "build_connection_network [boundary_wire] [boundary_pin] [] = []"
    by (simp add: build_connection_network_eq)
  ultimately show ?thesis
    using d by (simp add: proximity_threshold_def)
qed

lemma series_example_hyps:
  "comp_id series_R1 \<noteq> comp_id series_R2"
  "two_terminal series_R1" "two_terminal series_R2"
  "dist_px (seg_start_point series_wire) (right_point series_R1) < proximity_threshold"
  "dist_px (seg_end_point series_wire) (left_point series_R2) < proximity_threshold"
  by (simp_all add: series_R1_def series_R2_def series_wire_def two_terminal_def
      right_point_def left_point_def dist_px_near cps_def)

lemma series_pin_ids:
  "map pin_id series_pins
     = [cps ''R1_pin_0'', cps ''R1_pin_1'', cps ''R2_pin_0'', cps ''R2_pin_1'']"
proof -
  have "map pin_id series_pins
          = [comp_id series_R1 @ cps ''_pin_'' @ str_nat 0,
             comp_id series_R1 @ cps ''_pin_'' @ str_nat 1,
             comp_id series_R2 @ cps ''_pin_'' @ str_nat 0,
             comp_id series_R2 @ cps ''_pin_'' @ str_nat 1]"
    by (simp add: series_pins_def extract_component_pins_eq
        pins_of_two_terminal [OF series_example_hyps(2)]
        pins_of_two_terminal [OF series_example_hyps(3)])
  then show ?thesis
    by (simp add: series_ids str_nat.simps cps_def)
qed

subsection \<open>Electrical node resolver: one expansion step\<close>

lemma grows_refl: "grows A st st"
  unfolding grows_def by (rule exI [where x = "[]"]) simp

lemma visit_pin_grows:
  assumes "grows A st0 st" and "component_id p = cid \<Longrightarrow> p \<in> A"
  shows "grows A st0 (visit_pin cid p st)"
proof (cases "component_id p = cid \<and> pin_id p \<notin> processed st")
  case False
  then have "visit_pin cid p st = st"
    unfolding visit_pin_def by (rule if_not_P)
  with assms(1) show ?thesis by simp
next
  case True
  from assms(1) obtain new where n:
    "connected_pins st = connected_pins st0 @ new" "queue st = queue st0 @ new"
    "processed st = processed st0 \<union> pin_id ` set new" "set new \<subseteq> A"
    "distinct (map pin_id new)" "pin_id ` set new \<inter> processed st0 = {}"
    unfolding grows_def by blast
  from True assms(2) have pA: "p \<in> A" by simp
  from True n(3) have fresh: "pin_id p \<notin> processed st0" "pin_id p \<notin> pin_id ` set new"
    by auto
  have "connected_pins (visit_pin cid p st) = connected_pins st0 @ (new @ [p])"
    "queue (visit_pin cid p st) = queue st0 @ (new @ [p])"
    "processed (visit_pin cid p st) = processed st0 \<union> pin_id ` set (new @ [p])"
    using True n(1-3) by (auto simp: visit_pin_def)
  moreover have "set (new @ [p]) \<subseteq> A"
    using n(4) pA by simp
  moreover have "distinct (map pin_id (new @ [p]))"
    using n(5) fresh(2) by simp
  moreover have "pin_id ` set (new @ [p]) \<inter> processed st0 = {}"
    using n(6) fresh(1) by auto
  ultimately show ?thesis
    unfolding grows_def by blast
qed

lemma scan_component_grows:
  assumes "grows A st0 st"
    and "\<And>p. p \<in> set all_pins \<Longrightarrow> component_id p = cid \<Longrightarrow>
              cid \<noteq> component_id cur \<Longrightarrow> p \<in> A"
  shows "grows A st0 (scan_component cur all_pins cid st)"
proof (cases "cid \<noteq> component_id cur")
  case False
  with assms(1) show ?thesis by (simp add: scan_component_def)
next
  case True
  have "grows A st0 (fold (visit_pin cid) all_pins st)"
    using assms(1)
  proof (rule fold_invariant [where P = "grows A st0"])
    fix p s assume "p \<in> set all_pins" "grows A st0 s"
    then show "grows A st0 (visit_pin cid p s)"
      using assms(2) True by (intro visit_pin_grows) simp_all
  qed
  with True show ?thesis by (simp add: scan_component_def)
qed

lemma scan_connection_grows:
  assumes "grows (neighbours conns all_pins cur) st0 st" and "c \<in> set conns"
  shows "grows (neighbours conns all_pins cur) st0 (scan_connection cur all_pins c st)"
proof (cases "component_id cur \<in> set (connected_components c)")
  case False
  with assms(1) show ?thesis by (simp add: scan_connection_def)
next
  case True
  have "grows (neighbours conns all_pins cur) st0
          (fold (scan_component cur all_pins) (connected_components c) st)"
    using assms(1)
  proof (rule fold_invariant [where P = "grows (neighbours conns all_pins cur) st0"])
    fix cid s
    assume cid: "cid \<in> set (connected_components c)"
      and s: "grows (neighbours conns all_pins cur) st0 s"
    show "grows (neighbours conns all_pins cur) st0 (scan_component cur all_pins cid s)"
      using s
    proof (rule scan_component_grows)
      fix p assume "p \<in> set all_pins" "component_id p = cid" "cid \<noteq> component_id cur"
      with cid True assms(2) show "p \<in> neighbours conns all_pins cur"
        unfolding neighbours_def adjacent_def by blast
    qed
  qed
  with True show ?thesis by (simp add: scan_connection_def)
qed

lemma expand_pin_grows:
  "grows (neighbours conns all_pins cur) st (expand_pin cur conns all_pins st)"
  unfolding expand_pin_def
  by (rule fold_invariant [where P = "grows (neighbours conns all_pins cur) st"])
     (simp_all add: grows_refl scan_connection_grows)

lemma grows_processed_mono: "grows A st st' \<Longrightarrow> processed st \<subseteq> processed st'"
  unfolding grows_def by auto

lemma scan_component_mono:
  "processed st \<subseteq> processed (scan_component cur all_pins cid st)"
  by (rule grows_processed_mono [where A = UNIV])
     (rule scan_component_grows [OF grows_refl], simp)

lemma scan_connection_mono:
  "processed st \<subseteq> processed (scan_connection cur all_pins c st)"
proof (cases "component_id cur \<in> set (connected_components c)")
  case False
  then show ?thesis by (simp add: scan_connection_def)
next
  case True
  have "processed st \<subseteq> processed (fold (scan_component cur all_pins) (connected_components c) st)"
    by (rule fold_invariant [where P = "\<lambda>s. processed st \<subseteq> processed s"])
       (use scan_component_mono in blast)+
  with True show ?thesis by (simp add: scan_connection_def)
qed

lemma fold_visit_covers:
  "q \<in> set ps \<Longrightarrow> component_id q = cid \<Longrightarrow>
   pin_id q \<in> processed (fold (visit_pin cid) ps st)"
proof (induction ps arbitrary: st)
  case Nil
  then show ?case by simp
next
  case (Cons p ps)
  show ?case
  proof (cases "q \<in> set ps")
    case True
    with Cons show ?thesis by simp
  next
    case False
    with Cons.prems have "q = p" by simp
    with Cons.prems have "pin_id q \<in> processed (visit_pin cid p st)"
      by (simp add: visit_pin_def)
    moreover have "processed (visit_pin cid p st)
                   \<subseteq> processed (fold (visit_pin cid) ps (visit_pin cid p st))"
      by (rule fold_invariant [where P = "\<lambda>s. processed (visit_pin cid p st) \<subseteq> processed s"])
         (auto simp: visit_pin_def)
    ultimately show ?thesis by auto
  qed
qed

lemma fold_scan_component_covers:
  "cid \<in> set cids \<Longrightarrow> cid \<noteq> component_id cur \<Longrightarrow> q \<in> set all_pins \<Longrightarrow>
   component_id q = cid \<Longrightarrow>
   pin_id q \<in> processed (fold (scan_component cur all_pins) cids st)"
proof (induction cids arbitrary: st)
  case Nil
  then show ?case by simp
next
  case (Cons c cids)
  show ?case
  proof (cases "cid \<in> set cids")
    case True
    with Cons show ?thesis by simp
  next
    case False
    with Cons.prems have "cid = c" by simp
    with Cons.prems have "pin_id q \<in> processed (scan_component cur all_pins c st)"
      by (simp add: scan_component_def fold_visit_covers)
    moreover have "processed (scan_component cur all_pins c st)
                   \<subseteq> processed (fold (scan_component cur all_pins) cids
                                  (scan_component cur all_pins c st))"
      by (rule fold_invariant
            [where P = "\<lambda>s. processed (scan_component cur all_pins c st) \<subseteq> processed s"])
         (use scan_component_mono in blast)+
    ultimately show ?thesis by auto
  qed
qed

lemma expand_pin_covers:
  assumes "q \<in> neighbours conns all_pins cur"
  shows "pin_id q \<in> processed (expand_pin cur conns all_pins st)"
proof -
  from assms obtain c where c: "c \<in> set conns"
    "component_id cur \<in> set (connected_components c)"
    "component_id q \<in> set (connected_components c)"
    "component_id q \<noteq> component_id cur" and q: "q \<in> set all_pins"
    unfolding neighbours_def adjacent_def by blast
  have "\<And>st. c \<in> set cs \<Longrightarrow>
          pin_id q \<in> processed (fold (scan_connection cur all_pins) cs st)" for cs
  proof (induction cs)
    case Nil
    then show ?case by simp
  next
    case (Cons d ds)
    show ?case
    proof (cases "c \<in> set ds")
      case True
      with Cons show ?thesis by simp
    next
      case False
      with Cons.prems have "c = d" by simp
      then have "pin_id q \<in> processed (scan_connection cur all_pins d st)"
        using c q by (simp add: scan_connection_def fold_scan_component_covers)
      moreover have "processed (scan_connection cur all_pins d st)
                     \<subseteq> processed (fold (scan_connection cur all_pins) ds
                                    (scan_connection cur all_pins d st))"
        by (rule fold_invariant
              [where P = "\<lambda>s. processed (scan_connection cur all_pins d st) \<subseteq> processed s"])
           (use scan_connection_mono in blast)+
      ultimately show ?thesis by auto
    qed
  qed
  with c(1) show ?thesis
    by (simp add: expand_pin_def)
qed

subsection \<open>Electrical node resolver: the traversal\<close>

lemma bfs_loop_Nil: "queue st = [] \<Longrightarrow> bfs_loop conns all_pins st = st"
  by (subst bfs_loop.simps) simp

lemma bfs_loop_Cons:
  "queue st = cur # rest \<Longrightarrow>
   bfs_loop conns all_pins st =
     bfs_loop conns all_pins (expand_pin cur conns all_pins (st\<lparr>queue := rest\<rparr>))"
  by (subst bfs_loop.simps) simp

lemma neighbours_subset: "neighbours conns all_pins p \<subseteq> set all_pins"
  by (auto simp: neighbours_def)

lemma bfs_inv_initial:
  "start \<in> set all_pins \<Longrightarrow>
   bfs_inv conns all_pins start
     \<lparr> connected_pins = [start], processed = {pin_id start}, queue = [start] \<rparr>"
  by (simp add: bfs_inv_def)

lemma bfs_inv_step:
  assumes d: "distinct (map pin_id all_pins)"
    and inv: "bfs_inv conns all_pins start st"
    and q: "queue st = cur # rest"
  shows "bfs_inv conns all_pins start (expand_pin cur conns all_pins (st\<lparr>queue := rest\<rparr>))"
proof -
  let ?s1 = "st\<lparr>queue := rest\<rparr>"
  let ?s2 = "expand_pin cur conns all_pins ?s1"
  let ?N = "neighbours conns all_pins cur"
  from inv have i1: "set (connected_pins st) \<subseteq> set all_pins"
    and i2: "processed st = pin_id ` set (connected_pins st)"
    and i3: "distinct (map pin_id (connected_pins st))"
    and i4: "set (queue st) \<subseteq> set (connected_pins st)"
    and i5: "start \<in> set (connected_pins st)"
    and i6: "set (connected_pins st) \<subseteq> (wired conns all_pins)\<^sup>* `` {start}"
    and i7: "(\<Union>p \<in> set (connected_pins st) - set (queue st). neighbours conns all_pins p)
             \<subseteq> set (connected_pins st)"
    unfolding bfs_inv_def by blast+
  from expand_pin_grows [of conns all_pins cur ?s1] obtain new where
    n1: "connected_pins ?s2 = connected_pins st @ new"
    and n2: "queue ?s2 = rest @ new"
    and n3: "processed ?s2 = processed st \<union> pin_id ` set new"
    and n4: "set new \<subseteq> ?N"
    and n5: "distinct (map pin_id new)"
    and n6: "pin_id ` set new \<inter> processed st = {}"
    unfolding grows_def by auto
  have cur_in: "cur \<in> set (connected_pins st)"
    using i4 q by simp
  then have cur_pin: "cur \<in> set all_pins" and cur_reach: "(start, cur) \<in> (wired conns all_pins)\<^sup>*"
    using i1 i6 by auto
  have inj: "inj_on pin_id (set all_pins)"
    using d by (simp add: distinct_map)
  have new_pins: "set new \<subseteq> set all_pins"
    using n4 neighbours_subset by blast
  have c1: "set (connected_pins ?s2) \<subseteq> set all_pins"
    using n1 i1 new_pins by simp
  have c2: "processed ?s2 = pin_id ` set (connected_pins ?s2)"
    using n1 n3 i2 by (simp add: image_Un)
  have c3: "distinct (map pin_id (connected_pins ?s2))"
    using n1 n5 n6 i2 i3 by auto
  have c4: "set (queue ?s2) \<subseteq> set (connected_pins ?s2)"
    using n1 n2 i4 q by auto
  have c5: "start \<in> set (connected_pins ?s2)"
    using n1 i5 by simp
  have c6: "set (connected_pins ?s2) \<subseteq> (wired conns all_pins)\<^sup>* `` {start}"
  proof
    fix x assume "x \<in> set (connected_pins ?s2)"
    then consider "x \<in> set (connected_pins st)" | "x \<in> set new"
      using n1 by auto
    then show "x \<in> (wired conns all_pins)\<^sup>* `` {start}"
    proof cases
      case 1
      with i6 show ?thesis by blast
    next
      case 2
      with n4 have "(cur, x) \<in> wired conns all_pins"
        using cur_pin by (auto simp: wired_def)
      with cur_reach show ?thesis by auto
    qed
  qed
  have cover: "?N \<subseteq> set (connected_pins ?s2)"
  proof
    fix x assume x: "x \<in> ?N"
    then have "pin_id x \<in> processed ?s2"
      by (rule expand_pin_covers)
    with c2 obtain y where y: "y \<in> set (connected_pins ?s2)" "pin_id y = pin_id x"
      by auto
    from x have "x \<in> set all_pins"
      using neighbours_subset by blast
    with y c1 inj have "y = x"
      by (auto dest: inj_onD)
    with y show "x \<in> set (connected_pins ?s2)" by simp
  qed
  have c7: "(\<Union>p \<in> set (connected_pins ?s2) - set (queue ?s2). neighbours conns all_pins p)
            \<subseteq> set (connected_pins ?s2)"
  proof
    fix x assume "x \<in> (\<Union>p \<in> set (connected_pins ?s2) - set (queue ?s2). neighbours conns all_pins p)"
    then obtain p where p: "p \<in> set (connected_pins ?s2)" "p \<notin> set (queue ?s2)"
      and x: "x \<in> neighbours conns all_pins p"
      by auto
    from p n1 n2 have p_old: "p \<in> set (connected_pins st)" "p \<notin> set rest"
      by auto
    show "x \<in> set (connected_pins ?s2)"
    proof (cases "p = cur")
      case True
      with x cover show ?thesis by blast
    next
      case False
      with p_old q have "p \<in> set (connected_pins st) - set (queue st)"
        by simp
      with x i7 have "x \<in> set (connected_pins st)"
        by blast
      with n1 show ?thesis by simp
    qed
  qed
  from c1 c2 c3 c4 c5 c6 c7 show ?thesis
    unfolding bfs_inv_def by blast
qed

lemma bfs_loop_inv:
  "distinct (map pin_id all_pins) \<Longrightarrow> bfs_inv conns all_pins start st \<Longrightarrow>
   bfs_inv conns all_pins start (bfs_loop conns all_pins st)
   \<and> queue (bfs_loop conns all_pins st) = []"
proof (induction conns all_pins st rule: bfs_loop.induct)
  case (1 connections all_pins st)
  show ?case
  proof (cases "queue st")
    case Nil
    with "1.prems" show ?thesis by (simp add: bfs_loop_Nil)
  next
    case (Cons cur rest)
    from "1.prems" Cons
    have "bfs_inv connections all_pins start
            (expand_pin cur connections all_pins (st\<lparr>queue := rest\<rparr>))"
      by (rule bfs_inv_step)
    with "1.IH" [OF Cons "1.prems"(1)] Cons show ?thesis
      by (simp add: bfs_loop_Cons)
  qed
qed

lemma wired_sym: "sym (wired conns all_pins)"
  unfolding sym_def wired_def neighbours_def adjacent_def by auto

lemma wired_pins: "(p, q) \<in> (wired conns all_pins)\<^sup>* \<Longrightarrow> p \<in> set all_pins \<Longrightarrow> q \<in> set all_pins"
  by (induction rule: rtrancl_induct) (auto simp: wired_def neighbours_def)

text \<open>
  On pins with distinct ids, \<open>_find_connected_pins\<close> returns, without repetition, the
  pins that the start pin reaches through adjacent pins.
\<close>

lemma find_connected_pins_reach:
  assumes d: "distinct (map pin_id all_pins)" and s: "start \<in> set all_pins"
  shows "set (find_connected_pins start conns all_pins) = (wired conns all_pins)\<^sup>* `` {start}"
    and "distinct (map pin_id (find_connected_pins start conns all_pins))"
proof -
  let ?st = "bfs_loop conns all_pins
               \<lparr> connected_pins = [start], processed = {pin_id start}, queue = [start] \<rparr>"
  from bfs_loop_inv [OF d bfs_inv_initial [OF s]]
  have inv: "bfs_inv conns all_pins start ?st" and q: "queue ?st = []"
    by simp_all
  from inv have sub: "set (connected_pins ?st) \<subseteq> (wired conns all_pins)\<^sup>* `` {start}"
    and st: "start \<in> set (connected_pins ?st)"
    and closed: "(\<Union>p \<in> set (connected_pins ?st) - set (queue ?st). neighbours conns all_pins p)
                 \<subseteq> set (connected_pins ?st)"
    and dist: "distinct (map pin_id (connected_pins ?st))"
    unfolding bfs_inv_def by blast+
  have "x \<in> set (connected_pins ?st)" if "(start, x) \<in> (wired conns all_pins)\<^sup>*" for x
    using that
  proof (induction rule: rtrancl_induct)
    case base
    from st show ?case .
  next
    case (step y z)
    then have "z \<in> neighbours conns all_pins y"
      by (simp add: wired_def)
    with step.IH closed q show ?case by auto
  qed
  with sub show "set (find_connected_pins start conns all_pins) = (wired conns all_pins)\<^sup>* `` {start}"
    unfolding find_connected_pins_def by auto
  from dist show "distinct (map pin_id (find_connected_pins start conns all_pins))"
    unfolding find_connected_pins_def .
qed

subsection \<open>Electrical node resolver: the nodes\<close>

lemma fold_insert_ids:
  "fold (\<lambda>q seen. insert (pin_id q) seen) ps S = S \<union> pin_id ` set ps"
  by (induction ps arbitrary: S) auto

lemma reach_class_eq:
  assumes "(p, x) \<in> (wired conns all_pins)\<^sup>*"
  shows "(wired conns all_pins)\<^sup>* `` {x} = (wired conns all_pins)\<^sup>* `` {p}"
proof -
  have "sym ((wired conns all_pins)\<^sup>*)"
    using wired_sym by (rule sym_rtrancl)
  with assms have "(x, p) \<in> (wired conns all_pins)\<^sup>*"
    by (auto dest: symD)
  with assms show ?thesis
    by (auto intro: rtrancl_trans)
qed

lemma resolver_inv_step:
  assumes d: "distinct (map pin_id all_pins)"
    and p: "p \<in> set all_pins"
    and inv: "resolver_inv conns all_pins seen st"
  shows "resolver_inv conns all_pins (insert p seen) (resolve_pin conns all_pins p st)"
proof -
  let ?R = "(wired conns all_pins)\<^sup>*"
  from inv have i1: "processed_pins st = pin_id ` set (concat (node_pins st))"
    and i2: "\<forall>g\<in>set (node_pins st). \<exists>p\<in>set all_pins. set g = ?R `` {p}"
    and i3: "distinct (concat (node_pins st))"
    and i4: "seen \<subseteq> set (concat (node_pins st))"
    and i5: "nodes st = map (\<lambda>(k, g). make_node k g) (enumerate 0 (node_pins st))"
    and i6: "node_counter st = length (node_pins st)"
    unfolding resolver_inv_def by blast+
  have inj: "inj_on pin_id (set all_pins)"
    using d by (simp add: distinct_map)
  have old_pins: "set (concat (node_pins st)) \<subseteq> set all_pins"
  proof
    fix x assume "x \<in> set (concat (node_pins st))"
    then obtain g where g: "g \<in> set (node_pins st)" "x \<in> set g" by auto
    with i2 obtain r where "r \<in> set all_pins" "set g = ?R `` {r}" by blast
    with g show "x \<in> set all_pins" using wired_pins by blast
  qed
  show ?thesis
  proof (cases "pin_id p \<in> processed_pins st")
    case True
    with i1 have "pin_id p \<in> pin_id ` set (concat (node_pins st))"
      by simp
    then obtain y where y: "y \<in> set (concat (node_pins st))" "pin_id y = pin_id p"
      by (metis imageE)
    with old_pins p inj have "y = p"
      by (auto dest: inj_onD)
    with y i4 have "insert p seen \<subseteq> set (concat (node_pins st))"
      by simp
    moreover from True have "resolve_pin conns all_pins p st = st"
      by (simp add: resolve_pin_def)
    ultimately show ?thesis
      using i1 i2 i3 i5 i6 unfolding resolver_inv_def by simp
  next
    case False
    let ?g = "find_connected_pins p conns all_pins"
    have gset: "set ?g = ?R `` {p}" and gids: "distinct (map pin_id ?g)"
      using find_connected_pins_reach [OF d p] by simp_all
    from gset have pg: "p \<in> set ?g" by simp
    then have gne: "?g \<noteq> []" by auto
    from gids have gd: "distinct ?g" by (simp add: distinct_map)
    have p_new: "p \<notin> set (concat (node_pins st))"
      using False i1 by auto
    have disj: "set ?g \<inter> set (concat (node_pins st)) = {}"
    proof (rule ccontr)
      assume "set ?g \<inter> set (concat (node_pins st)) \<noteq> {}"
      then obtain x g' where x: "x \<in> set ?g" "g' \<in> set (node_pins st)" "x \<in> set g'"
        by auto
      with i2 obtain r where r: "set g' = ?R `` {r}" by blast
      from x(1) gset have "(p, x) \<in> ?R" by simp
      then have "?R `` {x} = ?R `` {p}" by (rule reach_class_eq)
      moreover from x(3) r have "(r, x) \<in> ?R" by simp
      then have "?R `` {x} = ?R `` {r}" by (rule reach_class_eq)
      ultimately have "p \<in> ?R `` {r}" by auto
      with r x(2) have "p \<in> set (concat (node_pins st))" by auto
      with p_new show False by simp
    qed
    let ?st' = "st\<lparr> nodes := nodes st @ [make_node (node_counter st) ?g],
                    node_pins := node_pins st @ [?g],
                    node_counter := node_counter st + 1,
                    processed_pins :=
                      fold (\<lambda>q seen. insert (pin_id q) seen) ?g (processed_pins st) \<rparr>"
    have eq: "resolve_pin conns all_pins p st = ?st'"
      using False gne by (simp add: resolve_pin_def Let_def)
    have c1: "processed_pins ?st' = pin_id ` set (concat (node_pins ?st'))"
      using i1 by (simp add: fold_insert_ids image_Un)
    have c2: "\<forall>g\<in>set (node_pins ?st'). \<exists>p\<in>set all_pins. set g = ?R `` {p}"
      using i2 gset p by auto
    have c3: "distinct (concat (node_pins ?st'))"
      using i3 gd disj by auto
    have c4: "insert p seen \<subseteq> set (concat (node_pins ?st'))"
      using i4 pg by auto
    have c5: "nodes ?st' = map (\<lambda>(k, g). make_node k g) (enumerate 0 (node_pins ?st'))"
      using i5 i6 by (simp add: enumerate_append_eq)
    have c6: "node_counter ?st' = length (node_pins ?st')"
      using i6 by simp
    from c1 c2 c3 c4 c5 c6 show ?thesis
      unfolding eq resolver_inv_def by blast
  qed
qed

lemma resolver_inv_fold:
  "distinct (map pin_id all_pins) \<Longrightarrow> set ps \<subseteq> set all_pins \<Longrightarrow>
   resolver_inv conns all_pins seen st \<Longrightarrow>
   resolver_inv conns all_pins (seen \<union> set ps) (fold (resolve_pin conns all_pins) ps st)"
proof (induction ps arbitrary: seen st)
  case Nil
  then show ?case by simp
next
  case (Cons p ps)
  from Cons.prems have "resolver_inv conns all_pins (insert p seen) (resolve_pin conns all_pins p st)"
    by (intro resolver_inv_step) simp_all
  with Cons.IH [of "insert p seen" "resolve_pin conns all_pins p st"] Cons.prems
  show ?case by simp
qed

lemma resolve_all_inv:
  "distinct (map pin_id all_pins) \<Longrightarrow>
   resolver_inv conns all_pins (set all_pins) (resolve_all conns all_pins)"
  using resolver_inv_fold [of all_pins all_pins conns "{}"
          "\<lparr> nodes = [], node_pins = [], processed_pins = {}, node_counter = 0 \<rparr>"]
  by (simp add: resolve_all_def resolver_inv_def)

lemma distinct_concat_index:
  "distinct (concat gs) \<Longrightarrow> i < length gs \<Longrightarrow> j < length gs \<Longrightarrow>
   x \<in> set (gs ! i) \<Longrightarrow> x \<in> set (gs ! j) \<Longrightarrow> i = j"
proof (induction gs arbitrary: i j)
  case Nil
  then show ?case by simp
next
  case (Cons g gs)
  from Cons.prems(1) have d: "distinct (concat gs)"
    and disj: "set g \<inter> set (concat gs) = {}"
    by simp_all
  show ?case
  proof (cases i)
    case i0: 0
    show ?thesis
    proof (cases j)
      case 0
      with i0 show ?thesis by simp
    next
      case (Suc j')
      with Cons.prems have "x \<in> set (concat gs)" by auto
      with i0 Cons.prems(4) disj show ?thesis by auto
    qed
  next
    case (Suc i')
    show ?thesis
    proof (cases j)
      case 0
      from Suc Cons.prems have "x \<in> set (concat gs)" by auto
      with 0 Cons.prems(5) disj show ?thesis by auto
    next
      case j: (Suc j')
      with Suc Cons.prems d Cons.IH [of i' j'] show ?thesis by simp
    qed
  qed
qed

lemma node_pins_facts:
  assumes d: "distinct (map pin_id all_pins)"
  shows "set (concat (electrical_node_pins conns all_pins)) = set all_pins"
    and "distinct (concat (electrical_node_pins conns all_pins))"
    and "\<forall>g\<in>set (electrical_node_pins conns all_pins).
           \<exists>p\<in>set all_pins. set g = (wired conns all_pins)\<^sup>* `` {p}"
    and "identify_electrical_nodes conns all_pins =
           map (\<lambda>(k, g). make_node k g) (enumerate 0 (electrical_node_pins conns all_pins))"
proof -
  let ?G = "electrical_node_pins conns all_pins"
  from resolve_all_inv [OF d, of conns]
  have i2: "\<forall>g\<in>set ?G. \<exists>p\<in>set all_pins. set g = (wired conns all_pins)\<^sup>* `` {p}"
    and i3: "distinct (concat ?G)"
    and i4: "set all_pins \<subseteq> set (concat ?G)"
    and i5: "identify_electrical_nodes conns all_pins =
               map (\<lambda>(k, g). make_node k g) (enumerate 0 ?G)"
    unfolding resolver_inv_def electrical_node_pins_def identify_electrical_nodes_def
    by blast+
  have "set (concat ?G) \<subseteq> set all_pins"
  proof
    fix x assume "x \<in> set (concat ?G)"
    then obtain g where g: "g \<in> set ?G" "x \<in> set g" by auto
    with i2 obtain r where "r \<in> set all_pins" "set g = (wired conns all_pins)\<^sup>* `` {r}"
      by blast
    with g show "x \<in> set all_pins" using wired_pins by blast
  qed
  with i4 show "set (concat ?G) = set all_pins" by blast
  from i3 show "distinct (concat ?G)" .
  from i2 show "\<forall>g\<in>set ?G. \<exists>p\<in>set all_pins. set g = (wired conns all_pins)\<^sup>* `` {p}" .
  from i5 show "identify_electrical_nodes conns all_pins =
                  map (\<lambda>(k, g). make_node k g) (enumerate 0 ?G)" .
qed

lemma share_node_reach:
  assumes d: "distinct (map pin_id all_pins)"
  shows "share_node conns all_pins p q =
           (p \<in> set all_pins \<and> (p, q) \<in> (wired conns all_pins)\<^sup>*)"
proof
  let ?G = "electrical_node_pins conns all_pins"
  let ?R = "(wired conns all_pins)\<^sup>*"
  note f = node_pins_facts [OF d, of conns]
  {
    assume "share_node conns all_pins p q"
    then obtain g where g: "g \<in> set ?G" "p \<in> set g" "q \<in> set g"
      unfolding share_node_def list_ex_iff by blast
    with f(3) obtain r where r: "r \<in> set all_pins" "set g = ?R `` {r}" by blast
    with g have rp: "(r, p) \<in> ?R" and rq: "(r, q) \<in> ?R" by auto
    from rp have "?R `` {p} = ?R `` {r}" by (rule reach_class_eq)
    with rq have "(p, q) \<in> ?R" by auto
    moreover from rp r(1) have "p \<in> set all_pins" by (rule wired_pins)
    ultimately show "p \<in> set all_pins \<and> (p, q) \<in> ?R" by simp
  }
  {
    assume a: "p \<in> set all_pins \<and> (p, q) \<in> ?R"
    with f(1) have "p \<in> set (concat ?G)" by simp
    then obtain g where g: "g \<in> set ?G" "p \<in> set g" by auto
    with f(3) obtain r where r: "set g = ?R `` {r}" by blast
    with g have "(r, p) \<in> ?R" by auto
    then have "?R `` {p} = ?R `` {r}" by (rule reach_class_eq)
    with a r have "q \<in> set g" by auto
    with g show "share_node conns all_pins p q"
      unfolding share_node_def list_ex_iff by blast
  }
qed

text \<open>
  C1, for pins with pairwise distinct ids. Every pin of the list is in the pin list of
  exactly one node, and the nodes hold no other pins; the nodes returned are built
  from these pin lists, in order; sharing a node is an equivalence relation on the
  pins, and in particular it is transitive.
\<close>

theorem electrical_nodes_partition:
  assumes d: "distinct (map pin_id pins)"
  shows "(\<forall>p\<in>set pins. \<exists>!k. k < length (electrical_node_pins conns pins)
                             \<and> p \<in> set (electrical_node_pins conns pins ! k))
     \<and> set (concat (electrical_node_pins conns pins)) = set pins
     \<and> identify_electrical_nodes conns pins =
         map (\<lambda>(k, g). make_node k g) (enumerate 0 (electrical_node_pins conns pins))
     \<and> equiv (set pins) {(p, q). share_node conns pins p q}
     \<and> (share_node conns pins a b \<longrightarrow> share_node conns pins b c \<longrightarrow> share_node conns pins a c)"
proof (intro conjI)
  let ?G = "electrical_node_pins conns pins"
  let ?R = "(wired conns pins)\<^sup>*"
  note f = node_pins_facts [OF d, of conns]
  note sh = share_node_reach [OF d, of conns]
  show "\<forall>p\<in>set pins. \<exists>!k. k < length ?G \<and> p \<in> set (?G ! k)"
  proof
    fix p assume "p \<in> set pins"
    with f(1) have "p \<in> set (concat ?G)" by simp
    then obtain g where "g \<in> set ?G" "p \<in> set g" by auto
    then obtain k where k: "k < length ?G" "p \<in> set (?G ! k)"
      by (auto simp: in_set_conv_nth)
    show "\<exists>!k. k < length ?G \<and> p \<in> set (?G ! k)"
    proof (rule ex1I [where a = k])
      from k show "k < length ?G \<and> p \<in> set (?G ! k)" by simp
    next
      fix j assume "j < length ?G \<and> p \<in> set (?G ! j)"
      with k f(2) show "j = k"
        using distinct_concat_index [of ?G j k p] by simp
    qed
  qed
  show "set (concat ?G) = set pins" by (rule f(1))
  show "identify_electrical_nodes conns pins =
          map (\<lambda>(k, g). make_node k g) (enumerate 0 ?G)" by (rule f(4))
  have sym: "sym ?R"
    using wired_sym by (rule sym_rtrancl)
  show "equiv (set pins) {(p, q). share_node conns pins p q}"
  proof (rule equivI)
    show "{(p, q). share_node conns pins p q} \<subseteq> set pins \<times> set pins"
      using wired_pins by (auto simp: sh)
    show "refl_on (set pins) {(p, q). share_node conns pins p q}"
      by (auto simp: refl_on_def sh)
    show "sym {(p, q). share_node conns pins p q}"
      using sym wired_pins by (auto simp: sym_def sh)
    show "trans {(p, q). share_node conns pins p q}"
      by (auto simp: trans_def sh)
  qed
  show "share_node conns pins a b \<longrightarrow> share_node conns pins b c \<longrightarrow> share_node conns pins a c"
    by (auto simp: sh)
qed

text \<open>
  The pins of the series example have distinct ids; their nodes partition them and
  sharing a node is an equivalence relation on them.
\<close>

theorem electrical_nodes_partition_witness:
  "distinct (map pin_id series_pins)
   \<and> set (concat (electrical_node_pins series_connections series_pins)) = set series_pins
   \<and> equiv (set series_pins) {(p, q). share_node series_connections series_pins p q}"
proof -
  have h: "distinct (map pin_id series_pins)"
    by (simp add: series_pin_ids cps_def)
  from electrical_nodes_partition [OF h, of series_connections] h show ?thesis
    by blast
qed

lemma find_connected_pins_unwired: "find_connected_pins p [] all_pins = [p]"
  by (simp add: find_connected_pins_def bfs_loop_Cons [where cur = p and rest = "[]"]
      expand_pin_def bfs_loop_Nil)

lemma duplicate_pins:
  "extract_component_pins [series_R1, duplicate_R1] =
     [\<lparr> pin_id = cps ''R1_pin_0'', component_id = cps ''R1'', pin_position = (0, 10),
        pin_number = 1, pin_component_type = cps ''resistor'' \<rparr>,
      \<lparr> pin_id = cps ''R1_pin_1'', component_id = cps ''R1'', pin_position = (40, 10),
        pin_number = 2, pin_component_type = cps ''resistor'' \<rparr>,
      \<lparr> pin_id = cps ''R1_pin_0'', component_id = cps ''R1'', pin_position = (200, 10),
        pin_number = 1, pin_component_type = cps ''resistor'' \<rparr>,
      \<lparr> pin_id = cps ''R1_pin_1'', component_id = cps ''R1'', pin_position = (240, 10),
        pin_number = 2, pin_component_type = cps ''resistor'' \<rparr>]"
  by (simp add: extract_component_pins_def pins_of_component_def get_component_pin_locations_def
      series_R1_def duplicate_R1_def enumerate_eq_zip Let_def str_nat.simps cps_def)

text \<open>
  C1, as stated for every list of pins, fails when two pins carry the same id. Two
  detected components with the id \<open>R1\<close> give four pins with two pin ids; with no
  connection the resolver makes a node for each of the first two pins and skips the
  other two, whose ids are already processed: the pin at (200, 10) is in no node.
\<close>

theorem duplicate_pin_id_counterexample:
  "electrical_node_pins [] (extract_component_pins [series_R1, duplicate_R1]) =
     [[\<lparr> pin_id = cps ''R1_pin_0'', component_id = cps ''R1'', pin_position = (0, 10),
         pin_number = 1, pin_component_type = cps ''resistor'' \<rparr>],
      [\<lparr> pin_id = cps ''R1_pin_1'', component_id = cps ''R1'', pin_position = (40, 10),
         pin_number = 2, pin_component_type = cps ''resistor'' \<rparr>]]
   \<and> \<lparr> pin_id = cps ''R1_pin_0'', component_id = cps ''R1'', pin_position = (200, 10),
         pin_number = 1, pin_component_type = cps ''resistor'' \<rparr>
       \<in> set (extract_component_pins [series_R1, duplicate_R1])
   \<and> \<lparr> pin_id = cps ''R1_pin_0'', component_id = cps ''R1'', pin_position = (200, 10),
         pin_number = 1, pin_component_type = cps ''resistor'' \<rparr>
       \<notin> set (concat (electrical_node_pins []
                         (extract_component_pins [series_R1, duplicate_R1])))
   \<and> length (identify_electrical_nodes [] (extract_component_pins [series_R1, duplicate_R1])) = 2"
proof -
  let ?p0 = "\<lparr> pin_id = cps ''R1_pin_0'', component_id = cps ''R1'', pin_position = (0, 10),
         pin_number = 1, pin_component_type = cps ''resistor'' \<rparr>"
  let ?p1 = "\<lparr> pin_id = cps ''R1_pin_1'', component_id = cps ''R1'', pin_position = (40, 10),
         pin_number = 2, pin_component_type = cps ''resistor'' \<rparr>"
  let ?p2 = "\<lparr> pin_id = cps ''R1_pin_0'', component_id = cps ''R1'', pin_position = (200, 10),
         pin_number = 1, pin_component_type = cps ''resistor'' \<rparr>"
  let ?p3 = "\<lparr> pin_id = cps ''R1_pin_1'', component_id = cps ''R1'', pin_position = (240, 10),
         pin_number = 2, pin_component_type = cps ''resistor'' \<rparr>"
  let ?pins = "[?p0, ?p1, ?p2, ?p3]"
  let ?s0 = "\<lparr> nodes = [], node_pins = [], processed_pins = {}, node_counter = 0 \<rparr>"
  let ?s1 = "\<lparr> nodes = [make_node 0 [?p0]], node_pins = [[?p0]],
               processed_pins = {cps ''R1_pin_0''}, node_counter = 1 \<rparr>"
  let ?s2 = "\<lparr> nodes = [make_node 0 [?p0], make_node 1 [?p1]], node_pins = [[?p0], [?p1]],
               processed_pins = {cps ''R1_pin_1'', cps ''R1_pin_0''}, node_counter = 2 \<rparr>"
  have ne: "cps ''R1_pin_1'' \<noteq> cps ''R1_pin_0''"
    by (simp add: cps_def)
  have pos: "?p2 \<noteq> ?p0" "?p2 \<noteq> ?p1"
    by simp_all
  have s1: "resolve_pin [] ?pins ?p0 ?s0 = ?s1"
    by (simp add: resolve_pin_def find_connected_pins_unwired Let_def)
  have s2: "resolve_pin [] ?pins ?p1 ?s1 = ?s2"
    using ne by (simp add: resolve_pin_def find_connected_pins_unwired Let_def)
  have s3: "resolve_pin [] ?pins ?p2 ?s2 = ?s2"
    by (simp add: resolve_pin_def)
  have s4: "resolve_pin [] ?pins ?p3 ?s2 = ?s2"
    by (simp add: resolve_pin_def)
  have "resolve_all [] ?pins = ?s2"
    unfolding resolve_all_def
    by (simp only: fold_simps o_apply id_apply s1 s2 s3 s4)
  then have "electrical_node_pins [] ?pins = [[?p0], [?p1]]"
    and "length (identify_electrical_nodes [] ?pins) = 2"
    by (simp_all add: electrical_node_pins_def identify_electrical_nodes_def)
  with pos show ?thesis
    unfolding duplicate_pins by simp
qed

subsection \<open>Two components in series\<close>






subsection \<open>Topology analyzer\<close>

lemma comp_id_to_idx_fold:
  "fold (\<lambda>(idx, c) m. m(comp_id c \<mapsto> idx)) (enumerate n xs) m k = Some i \<Longrightarrow>
   m k = Some i \<or> (n \<le> i \<and> i < n + length xs \<and> comp_id (xs ! (i - n)) = k)"
proof (induction xs arbitrary: n m)
  case Nil
  then show ?case by simp
next
  case (Cons x xs)
  from Cons.prems
  have "fold (\<lambda>(idx, c) m. m(comp_id c \<mapsto> idx)) (enumerate (Suc n) xs) (m(comp_id x \<mapsto> n)) k = Some i"
    by (simp del: fun_upd_apply)
  from Cons.IH [OF this]
  consider "(m(comp_id x \<mapsto> n)) k = Some i"
    | "Suc n \<le> i" "i < Suc n + length xs" "comp_id (xs ! (i - Suc n)) = k"
    by blast
  then show ?case
  proof cases
    case 1
    then show ?thesis by (cases "k = comp_id x") auto
  next
    case 2
    then have "i - n = Suc (i - Suc n)"
      by simp
    then have "(x # xs) ! (i - n) = xs ! (i - Suc n)"
      by simp
    with 2 show ?thesis by simp
  qed
qed

lemma comp_id_to_idx_bound:
  "comp_id_to_idx comps k = Some i \<Longrightarrow> i < length comps \<and> comp_id (comps ! i) = k"
  using comp_id_to_idx_fold [of 0 comps Map.empty k i]
  by (simp add: comp_id_to_idx_def)

lemma mark_other_row: "a \<noteq> i \<Longrightarrow> mark m a b ! i = m ! i"
  by (simp add: mark_def)

lemma mark_pair_row:
  "idx c1 \<noteq> Some i \<Longrightarrow> idx c2 \<noteq> Some i \<Longrightarrow> mark_pair idx c1 c2 m ! i = m ! i"
  by (auto simp: mark_pair_def mark_other_row split: option.splits)

lemma fold_mark_pair_row:
  "idx c1 \<noteq> Some i \<Longrightarrow> \<forall>c\<in>set cs. idx c \<noteq> Some i \<Longrightarrow>
   fold (mark_pair idx c1) cs m ! i = m ! i"
  by (induction cs arbitrary: m) (simp_all add: mark_pair_row)

lemma mark_pairs_row:
  "\<forall>c\<in>set cs. idx c \<noteq> Some i \<Longrightarrow> mark_pairs idx cs m ! i = m ! i"
  by (induction cs arbitrary: m) (simp_all add: fold_mark_pair_row)

lemma fold_mark_pairs_row:
  "\<forall>conn\<in>set conns. \<forall>c\<in>set (connected_components conn). idx c \<noteq> Some i \<Longrightarrow>
   fold (\<lambda>connection m. mark_pairs idx (connected_components connection) m) conns m ! i = m ! i"
  by (induction conns arbitrary: m) (simp_all add: mark_pairs_row)

lemma length_mark [simp]: "length (mark m a b) = length m"
  by (simp add: mark_def)

lemma length_mark_pair [simp]: "length (mark_pair idx c1 c2 m) = length m"
  by (simp add: mark_pair_def split: option.splits)

lemma length_fold_mark_pair [simp]: "length (fold (mark_pair idx c1) cs m) = length m"
  by (induction cs arbitrary: m) simp_all

lemma length_mark_pairs [simp]: "length (mark_pairs idx cs m) = length m"
  by (induction cs arbitrary: m) simp_all

lemma length_build_connectivity_matrix:
  "length (build_connectivity_matrix conns comps) = length comps"
proof -
  have "\<And>m. length (fold (\<lambda>connection m. mark_pairs (comp_id_to_idx comps)
                        (connected_components connection) m) conns m) = length m"
    by (induction conns) simp_all
  then show ?thesis
    by (simp add: build_connectivity_matrix_def Let_def)
qed

lemma untouched_row:
  assumes "i < length comps"
    and "\<forall>conn\<in>set conns. comp_id (comps ! i) \<notin> set (connected_components conn)"
  shows "build_connectivity_matrix conns comps ! i = replicate (length comps) 0"
proof -
  have "\<forall>conn\<in>set conns. \<forall>c\<in>set (connected_components conn).
          comp_id_to_idx comps c \<noteq> Some i"
    using assms(2) comp_id_to_idx_bound by blast
  from fold_mark_pairs_row [OF this] assms(1) show ?thesis
    by (simp add: build_connectivity_matrix_def Let_def)
qed

lemma find_isolated_fold:
  "n + length rows \<le> length comps \<Longrightarrow>
   fold (\<lambda>(i, row) acc.
           case acc of
             Inl e \<Rightarrow> Inl e
           | Inr isolated \<Rightarrow>
               if sum_list row = 0
               then (if i < length comps
                     then Inr (isolated @ [comp_id (comps ! i)])
                     else Inl (IndexError (cps ''list index out of range'')))
               else Inr isolated)
        (enumerate n rows) (Inr acc)
   = Inr (acc @ map (\<lambda>(i, row). comp_id (comps ! i))
                    (filter (\<lambda>(i, row). sum_list row = 0) (enumerate n rows)))"
proof (induction rows arbitrary: n acc)
  case Nil
  then show ?case by simp
next
  case (Cons r rows)
  then have "Suc n + length rows \<le> length comps" and "n < length comps"
    by simp_all
  with Cons.IH [of "Suc n"] show ?case by simp
qed

lemma find_isolated_components_eq:
  "length m \<le> length comps \<Longrightarrow>
   find_isolated_components m comps =
     Inr (map (\<lambda>(i, row). comp_id (comps ! i))
              (filter (\<lambda>(i, row). sum_list row = 0) (enumerate 0 m)))"
  unfolding find_isolated_components_def
  using find_isolated_fold [of 0 m comps "[]"]
  by (simp del: sum_list_eq_0_iff)

lemma zero_row_isolated:
  assumes "i < length m" and "length m \<le> length comps" and "sum_list (m ! i) = 0"
  shows "\<exists>isolated. find_isolated_components m comps = Inr isolated
           \<and> comp_id (comps ! i) \<in> set isolated"
proof -
  have "(i, m ! i) \<in> set (enumerate 0 m)"
    using assms(1) by (simp add: in_set_enumerate_eq)
  then have "(i, m ! i) \<in> set (filter (\<lambda>(i, row). sum_list row = 0) (enumerate 0 m))"
    using assms(3) by simp
  then have "comp_id (comps ! i) \<in>
      set (map (\<lambda>(i, row). comp_id (comps ! i))
               (filter (\<lambda>(i, row). sum_list row = 0) (enumerate 0 m)))"
    by (metis (mono_tags, lifting) case_prod_conv image_eqI set_map)
  with find_isolated_components_eq [OF assms(2)] show ?thesis by simp
qed

text \<open>
  C8. A component (the one at index \<open>i\<close> of the components list) whose id is in the
  \<open>connected_components\<close> of no connection has a row of sum zero in the adjacency
  matrix, its id is in the list of isolated components, and the potential issues hold
  an issue of type \<open>isolation\<close> with severity \<open>warning\<close>; both functions return.
\<close>

theorem isolated_component_detected:
  assumes "i < length comps"
    and "\<forall>conn\<in>set conns. comp_id (comps ! i) \<notin> set (connected_components conn)"
  shows "sum_list (build_connectivity_matrix conns comps ! i) = 0
     \<and> (\<exists>isolated. isolated_components conns comps = Inr isolated
           \<and> comp_id (comps ! i) \<in> set isolated)
     \<and> (\<exists>issues. identify_potential_issues conns nds comps = Inr issues
           \<and> list_ex (\<lambda>x. issue_type x = cps ''isolation'' \<and> severity x = cps ''warning'')
                issues)"
proof -
  let ?m = "build_connectivity_matrix conns comps"
  have row: "sum_list (?m ! i) = 0"
    using untouched_row [OF assms] by simp
  have len: "length ?m = length comps"
    by (rule length_build_connectivity_matrix)
  from zero_row_isolated [of i ?m comps] assms(1) len row
  obtain isolated where iso: "find_isolated_components ?m comps = Inr isolated"
    and mem: "comp_id (comps ! i) \<in> set isolated"
    by auto
  from mem have ne: "isolated \<noteq> []" by auto
  have "\<exists>issues. identify_potential_issues conns nds comps = Inr issues
           \<and> list_ex (\<lambda>x. issue_type x = cps ''isolation'' \<and> severity x = cps ''warning'')
                issues"
    using iso ne by (simp add: identify_potential_issues_def Let_def)
  with row iso mem show ?thesis
    by (simp add: isolated_components_def)
qed

text \<open>
  With \<open>R1\<close> and \<open>R2\<close> and the wire dangling at \<open>R1\<close>, the component \<open>R2\<close> is in no
  connection.
\<close>

theorem isolated_component_detected_witness:
  "(1::nat) < length [series_R1, series_R2]
   \<and> list_all (\<lambda>conn. comp_id ([series_R1, series_R2] ! 1) \<notin> set (connected_components conn))
        [connection_of series_wire [cps ''R1'']]
   \<and> sum_list (build_connectivity_matrix [connection_of series_wire [cps ''R1'']]
                  [series_R1, series_R2] ! 1) = 0
   \<and> (\<exists>isolated. isolated_components [connection_of series_wire [cps ''R1'']]
                       [series_R1, series_R2] = Inr isolated
           \<and> comp_id ([series_R1, series_R2] ! 1) \<in> set isolated)
   \<and> (\<exists>issues. identify_potential_issues [connection_of series_wire [cps ''R1'']] []
                     [series_R1, series_R2] = Inr issues
           \<and> list_ex (\<lambda>x. issue_type x = cps ''isolation'' \<and> severity x = cps ''warning'')
                issues)"
proof -
  have h1: "(1::nat) < length [series_R1, series_R2]"
    by simp
  have h2: "\<forall>conn\<in>set [connection_of series_wire [cps ''R1'']].
              comp_id ([series_R1, series_R2] ! 1) \<notin> set (connected_components conn)"
    by (simp add: connection_of_def series_R2_def cps_def)
  then have h2': "list_all (\<lambda>conn. comp_id ([series_R1, series_R2] ! 1)
                              \<notin> set (connected_components conn))
                    [connection_of series_wire [cps ''R1'']]"
    unfolding list_all_iff .
  from isolated_component_detected [OF h1 h2, of "[]"] h1 h2' show ?thesis
    by blast
qed

subsection \<open>Netlist generation: the component loop\<close>

lemma process_component_fixed_nodes:
  assumes "process_component n c = Inr e"
  shows "fixed_node_line e"
proof (cases c)
  case (NotADict v)
  with assms show ?thesis by (simp add: process_component_def)
next
  case (Dict d)
  let ?ct = "dict_get d (cps ''component_type'') (PStr (cps ''unknown''))"
  from assms Dict obtain t where t: "lower_of ?ct = Inr t"
    by (cases "lower_of ?ct") (simp_all add: process_component_def Let_def)
  from assms Dict t
  have "spice_line e = cps ''R'' @ py_str (entry_designation e) @ cps '' N1 N2 '' @ py_str (entry_value e)
      \<or> spice_line e = cps ''C'' @ py_str (entry_designation e) @ cps '' N1 N2 '' @ py_str (entry_value e)
      \<or> spice_line e = cps ''L'' @ py_str (entry_designation e) @ cps '' N1 N2 '' @ py_str (entry_value e)
      \<or> spice_line e = cps ''X'' @ py_str (entry_designation e) @ cps '' N1 N2 '' @ py_str (entry_type e)"
    by (auto simp: process_component_def Let_def)
  then show ?thesis
    unfolding fixed_node_line_def by blast
qed

lemma process_component_processable:
  "(\<exists>e. process_component n c = Inr e) = processable c"
proof (cases c)
  case (NotADict v)
  then show ?thesis by (simp add: process_component_def processable_def)
next
  case (Dict d)
  then show ?thesis
    by (cases "dict_get d (cps ''component_type'') (PStr (cps ''unknown''))")
       (simp_all add: process_component_def processable_def lower_of_def Let_def)
qed

lemma process_components_step: "process_components cs acc = fold step cs acc"
  unfolding process_components_def step_def
  by (rule arg_cong [where f = "\<lambda>f. fold f cs acc"]) (auto simp: fun_eq_iff)

lemma process_component_expected:
  assumes "processable (Dict d)"
  shows "process_component n (Dict d) = Inr (expected_entry n d)"
proof -
  from assms obtain t where
    t: "dict_get d (cps ''component_type'') (PStr (cps ''unknown'')) = PStr t"
    unfolding processable_def
    by (cases "dict_get d (cps ''component_type'') (PStr (cps ''unknown''))") simp_all
  have ne: "cps ''R'' \<noteq> cps ''X''" "cps ''C'' \<noteq> cps ''X''" "cps ''L'' \<noteq> cps ''X''"
    "cps ''capacitor'' \<noteq> cps ''resistor''" "cps ''inductor'' \<noteq> cps ''resistor''"
    "cps ''inductor'' \<noteq> cps ''capacitor''"
    by (simp_all add: cps_def)
  consider (r) "py_lower t = cps ''resistor''"
    | (c) "py_lower t \<noteq> cps ''resistor''" "py_lower t = cps ''capacitor''"
    | (l) "py_lower t \<noteq> cps ''resistor''" "py_lower t \<noteq> cps ''capacitor''"
          "py_lower t = cps ''inductor''"
    | (x) "py_lower t \<noteq> cps ''resistor''" "py_lower t \<noteq> cps ''capacitor''"
          "py_lower t \<noteq> cps ''inductor''"
    by blast
  then show ?thesis
  proof cases
    case r
    then have k: "device_kind t = cps ''R''"
      by (simp add: device_kind_def cps_def)
    show ?thesis
      by (simp add: process_component_def expected_entry_def lower_of_def t Let_def k ne r)
  next
    case c
    then have k: "device_kind t = cps ''C''"
      by (simp add: device_kind_def cps_def)
    show ?thesis
      by (simp add: process_component_def expected_entry_def lower_of_def t Let_def k ne c)
  next
    case l
    then have k: "device_kind t = cps ''L''"
      by (simp add: device_kind_def cps_def)
    show ?thesis
      by (simp add: process_component_def expected_entry_def lower_of_def t Let_def k ne l)
  next
    case x
    then have k: "device_kind t = cps ''X''"
      by (simp add: device_kind_def cps_def)
    show ?thesis
      by (simp add: process_component_def expected_entry_def lower_of_def t Let_def k x)
  qed
qed

lemma expected_devices_fixed_nodes: "list_all fixed_node_line (expected_devices n cs)"
proof (induction n cs rule: expected_devices.induct)
  case (1 n)
  then show ?case by simp
next
  case (2 n v cs)
  then show ?case by simp
next
  case (3 n d cs)
  show ?case
  proof (cases "processable (Dict d)")
    case True
    then have "fixed_node_line (expected_entry n d)"
      using process_component_expected [of d n] process_component_fixed_nodes by blast
    with 3 True show ?thesis by simp
  next
    case False
    with 3 show ?thesis by simp
  qed
qed

lemma length_expected_devices:
  "length (expected_devices n cs) = length (filter processable cs)"
proof (induction n cs rule: expected_devices.induct)
  case (1 n)
  then show ?case by simp
next
  case (2 n v cs)
  then show ?case by (simp add: processable_def)
next
  case (3 n d cs)
  then show ?case by simp
qed

lemma process_components_shape:
  "process_components cs (ls, es) =
     (ls @ map spice_line (expected_devices (length es) cs),
      es @ expected_devices (length es) cs)"
  unfolding process_components_step
proof (induction cs arbitrary: ls es)
  case Nil
  then show ?case by simp
next
  case (Cons c cs)
  show ?case
  proof (cases c)
    case (NotADict v)
    then have "step c (ls, es) = (ls, es)"
      by (simp add: step_def process_component_def)
    with Cons [of ls es] NotADict show ?thesis by simp
  next
    case (Dict d)
    show ?thesis
    proof (cases "processable (Dict d)")
      case True
      then have "step c (ls, es)
                 = (ls @ [spice_line (expected_entry (length es) d)],
                    es @ [expected_entry (length es) d])"
        using Dict by (simp add: step_def process_component_expected)
      with Cons [of "ls @ [spice_line (expected_entry (length es) d)]"
                    "es @ [expected_entry (length es) d]"] Dict True
      show ?thesis by simp
    next
      case False
      then have "\<nexists>e. process_component (length es) c = Inr e"
        using Dict process_component_processable [of "length es" c] by simp
      then have "step c (ls, es) = (ls, es)"
        by (cases "process_component (length es) c") (simp_all add: step_def)
      with Cons [of ls es] Dict False show ?thesis by simp
    qed
  qed
qed

subsection \<open>Netlist generation: the result\<close>

lemma generate_body_list:
  "generate_body (CompList cs) connections nds =
     Inr \<lparr> netlist = py_join [10] (header_lines @ map spice_line (expected_devices 0 cs)
                                    @ [[], cps ''.op'', cps ''.end'']),
           components = expected_devices 0 cs,
           node_mapping = Map.empty,
           analysis_commands = [cps ''.op''],
           metadata = \<lparr> generation_success = True,
                        total_components = Some (length (expected_devices 0 cs)),
                        error = None \<rparr> \<rparr>"
  using process_components_shape [of cs header_lines "[]"]
  by (simp add: generate_body_def)

lemmas eval_defs = generate_spice_netlist_def generate_body_def process_components_def
  process_component_def dict_get_def lower_of_def py_lower_def lower_cp_def header_lines_def
  no_attribute_def quoted_def failure_result_def cps_def Let_def str_nat.simps

text \<open>
  C10. For a fixed components argument the result of \<open>generate_spice_netlist\<close> is the
  same for any two choices of the connections and the nodes: the method returns, the
  node mapping of its result is empty, and every device line consists of a kind letter,
  the designation, the fixed tokens \<open>N1 N2\<close> and an operand.
\<close>

theorem generate_spice_netlist_ignores_topology:
  "generate_spice_netlist comps connections nds = generate_spice_netlist comps connections' nds'
   \<and> (case generate_spice_netlist comps connections nds of
        Inl e \<Rightarrow> False
      | Inr r \<Rightarrow> node_mapping r = Map.empty \<and> list_all fixed_node_line (components r))"
proof (intro conjI)
  show "generate_spice_netlist comps connections nds = generate_spice_netlist comps connections' nds'"
    by (simp add: generate_spice_netlist_def generate_body_def)
next
  show "case generate_spice_netlist comps connections nds of
        Inl e \<Rightarrow> False
      | Inr r \<Rightarrow> node_mapping r = Map.empty \<and> list_all fixed_node_line (components r)"
  proof (cases comps)
    case (CompList cs)
    have "list_all fixed_node_line (expected_devices 0 cs)"
      by (rule expected_devices_fixed_nodes)
    with CompList show ?thesis
      by (simp add: generate_spice_netlist_def generate_body_list)
  next
    case (NotIterable t)
    then show ?thesis
      by (simp add: generate_spice_netlist_def generate_body_def failure_result_def)
  qed
qed

text \<open>
  C3, as the code has it. \<open>generate_spice_netlist\<close> never raises. On a list of
  components, a component whose processing fails is skipped and the generation still
  succeeds: the flag is true, no error is recorded, the device list holds exactly the
  entries of the processable components, in input order, and the text is the header,
  the device lines of these entries, the analysis directives and \<open>.end\<close>. When the
  components argument cannot be iterated, the result has no devices, an empty netlist
  text, the flag false and the description of the error.
\<close>

theorem generate_spice_netlist_never_raises:
  "(\<exists>r. generate_spice_netlist comps connections nds = Inr r)
   \<and> (case comps of
        CompList cs \<Rightarrow>
          (\<exists>r. generate_spice_netlist comps connections nds = Inr r
             \<and> generation_success (metadata r) \<and> error (metadata r) = None
             \<and> components r = expected_devices 0 cs
             \<and> length (components r) = length (filter processable cs)
             \<and> (\<exists>directives.
                   netlist r = py_join [10] (header_lines
                                             @ map spice_line (expected_devices 0 cs)
                                             @ directives @ [cps ''.end''])))
      | NotIterable t \<Rightarrow>
          (\<exists>r. generate_spice_netlist comps connections nds = Inr r
             \<and> components r = [] \<and> netlist r = []
             \<and> \<not> generation_success (metadata r)
             \<and> error (metadata r) = Some (quoted t @ cps '' object is not iterable'')))"
proof (cases comps)
  case (CompList cs)
  let ?r = "\<lparr> netlist = py_join [10] (header_lines @ map spice_line (expected_devices 0 cs)
                                       @ [[], cps ''.op'', cps ''.end'']),
              components = expected_devices 0 cs,
              node_mapping = Map.empty,
              analysis_commands = [cps ''.op''],
              metadata = \<lparr> generation_success = True,
                           total_components = Some (length (expected_devices 0 cs)),
                           error = None \<rparr> \<rparr>"
  have g: "generate_spice_netlist (CompList cs) connections nds = Inr ?r"
    by (simp add: generate_spice_netlist_def generate_body_list)
  have n: "netlist ?r = py_join [10] (header_lines @ map spice_line (expected_devices 0 cs)
                                      @ [[], cps ''.op''] @ [cps ''.end''])"
    by simp
  have d: "\<exists>directives.
             netlist ?r = py_join [10] (header_lines @ map spice_line (expected_devices 0 cs)
                                        @ directives @ [cps ''.end''])"
    by (rule exI [where x = "[[], cps ''.op'']"]) (rule n)
  have first: "\<exists>r. generate_spice_netlist (CompList cs) connections nds = Inr r"
    using g by (rule exI)
  have second: "\<exists>r. generate_spice_netlist (CompList cs) connections nds = Inr r
             \<and> generation_success (metadata r) \<and> error (metadata r) = None
             \<and> components r = expected_devices 0 cs
             \<and> length (components r) = length (filter processable cs)
             \<and> (\<exists>directives.
                   netlist r = py_join [10] (header_lines
                                             @ map spice_line (expected_devices 0 cs)
                                             @ directives @ [cps ''.end'']))"
  proof (intro exI [where x = ?r] conjI)
    show "generate_spice_netlist (CompList cs) connections nds = Inr ?r" by (rule g)
    show "generation_success (metadata ?r)" by simp
    show "error (metadata ?r) = None" by simp
    show "components ?r = expected_devices 0 cs" by simp
    show "length (components ?r) = length (filter processable cs)"
      by (simp add: length_expected_devices)
    show "\<exists>directives.
             netlist ?r = py_join [10] (header_lines @ map spice_line (expected_devices 0 cs)
                                        @ directives @ [cps ''.end''])"
      by (rule d)
  qed
  show ?thesis
    unfolding CompList components_arg.case using first second by (rule conjI)
next
  case (NotIterable t)
  let ?r = "failure_result (TypeError (quoted t @ cps '' object is not iterable''))"
  have g: "generate_spice_netlist (NotIterable t) connections nds = Inr ?r"
    by (simp add: generate_spice_netlist_def generate_body_def)
  have first: "\<exists>r. generate_spice_netlist (NotIterable t) connections nds = Inr r"
    using g by (rule exI)
  have second: "\<exists>r. generate_spice_netlist (NotIterable t) connections nds = Inr r
             \<and> components r = [] \<and> netlist r = []
             \<and> \<not> generation_success (metadata r)
             \<and> error (metadata r) = Some (quoted t @ cps '' object is not iterable'')"
  proof (intro exI [where x = ?r] conjI)
    show "generate_spice_netlist (NotIterable t) connections nds = Inr ?r" by (rule g)
  qed (simp_all add: failure_result_def)
  show ?thesis
    unfolding NotIterable components_arg.case using first second by (rule conjI)
qed

text \<open>
  C3, as stated, fails. The first component below has \<open>component_type\<close> \<open>None\<close>: its
  processing raises AttributeError, an internal failure, and yet the result has a device
  and \<open>generation_success\<close> true. And where the generation does fail (the components
  argument is \<open>None\<close>), the netlist text is empty, not the header with \<open>.op\<close> and
  \<open>.end\<close>.
\<close>

theorem malformed_component_counterexample:
  "process_component 0 (Dict [(cps ''component_type'', PNone)])
     = Inl (AttributeError ([39] @ cps ''NoneType'' @ [39] @ cps '' object has no attribute ''
                              @ [39] @ cps ''lower'' @ [39]))
   \<and> generate_spice_netlist
       (CompList [Dict [(cps ''component_type'', PNone)],
                  Dict [(cps ''component_type'', PStr (cps ''resistor'')),
                        (cps ''designation'', PStr (cps ''1'')),
                        (cps ''value'', PStr (cps ''1k''))]]) [] []
     = Inr \<lparr> netlist = py_join [10]
                 [cps ''* Generated SPICE Netlist'', cps ''* Hardware AI Orchestrator'', [],
                  cps ''R1 N1 N2 1k'', [], cps ''.op'', cps ''.end''],
             components = [\<lparr> entry_designation = PStr (cps ''1''),
                              entry_type = PStr (cps ''resistor''),
                              entry_value = PStr (cps ''1k''),
                              spice_line = cps ''R1 N1 N2 1k'' \<rparr>],
             node_mapping = Map.empty,
             analysis_commands = [cps ''.op''],
             metadata = \<lparr> generation_success = True, total_components = Some 1,
                          error = None \<rparr> \<rparr>
   \<and> generate_spice_netlist (NotIterable (cps ''NoneType'')) [] []
     = Inr \<lparr> netlist = [], components = [], node_mapping = Map.empty,
             analysis_commands = [],
             metadata = \<lparr> generation_success = False, total_components = None,
                          error = Some ([39] @ cps ''NoneType'' @ [39]
                                        @ cps '' object is not iterable'') \<rparr> \<rparr>"
  by (simp add: eval_defs)

subsection \<open>Netlist generation: analysis directives\<close>

lemma generate_analysis_commands_spec:
  "generate_analysis_commands cs =
     [cps ''.op'']
     @ (if list_ex (\<lambda>c. component_type c = cps ''V'') cs then [cps ''.dc V1 0 10 0.1''] else [])
     @ (if list_ex (\<lambda>c. component_type c = cps ''C'' \<or> component_type c = cps ''L'') cs
        then [cps ''.ac dec 10 1 1meg''] else [])
     @ [cps ''.tran 1n 1u'']"
  by (simp add: generate_analysis_commands_def Let_def filter_empty_conv list_ex_iff)

lemma capacitor_component:
  "process_component 0 (Dict [(cps ''component_type'', PStr (cps ''capacitor'')),
                              (cps ''designation'', PStr (cps ''1'')),
                              (cps ''value'', PStr (cps ''1u''))])
   = Inr \<lparr> entry_designation = PStr (cps ''1''),
           entry_type = PStr (cps ''capacitor''),
           entry_value = PStr (cps ''1u''),
           spice_line = cps ''C1 N1 N2 1u'' \<rparr>"
  by (simp add: process_component_def dict_get_def lower_of_def py_lower_def lower_cp_def
      cps_def)

text \<open>
  C9 on \<open>generate_spice_netlist\<close>. The helper \<open>_generate_analysis_commands\<close> computes
  the directives as the claim states them (lemma \<open>generate_analysis_commands_spec\<close>), but
  \<open>generate_spice_netlist\<close> does not call it: for a single capacitor, a reactive device,
  the netlist text ends with \<open>.op\<close> and \<open>.end\<close> and the analysis commands are \<open>.op\<close>
  alone, with no AC and no transient directive.
\<close>

theorem capacitor_netlist_lacks_ac_and_tran:
  "generate_spice_netlist
       (CompList [Dict [(cps ''component_type'', PStr (cps ''capacitor'')),
                        (cps ''designation'', PStr (cps ''1'')),
                        (cps ''value'', PStr (cps ''1u''))]]) [] []
     = Inr \<lparr> netlist = py_join [10]
                 [cps ''* Generated SPICE Netlist'', cps ''* Hardware AI Orchestrator'', [],
                  cps ''C1 N1 N2 1u'', [], cps ''.op'', cps ''.end''],
             components = [\<lparr> entry_designation = PStr (cps ''1''),
                              entry_type = PStr (cps ''capacitor''),
                              entry_value = PStr (cps ''1u''),
                              spice_line = cps ''C1 N1 N2 1u'' \<rparr>],
             node_mapping = Map.empty,
             analysis_commands = [cps ''.op''],
             metadata = \<lparr> generation_success = True, total_components = Some 1,
                          error = None \<rparr> \<rparr>"
  by (simp add: generate_spice_netlist_def generate_body_def process_components_def
      capacitor_component header_lines_def)

subsection \<open>The pipeline without components\<close>

text \<open>
  C4. With no detected component there is no pin; whatever the classified segments are,
  the network builder yields no connection and the node resolver no node, and the
  netlist generator returns the two header comment lines, \<open>.op\<close> and \<open>.end\<close> (with
  the two empty separator lines and no device line) and \<open>generation_success\<close> true.
\<close>

theorem zero_components_pipeline:
  "extract_component_pins [] = []
   \<and> build_connection_network segs (extract_component_pins []) [] = []
   \<and> identify_electrical_nodes
        (build_connection_network segs (extract_component_pins []) [])
        (extract_component_pins []) = []
   \<and> generate_spice_netlist (CompList [])
        (build_connection_network segs (extract_component_pins []) [])
        (identify_electrical_nodes
           (build_connection_network segs (extract_component_pins []) [])
           (extract_component_pins []))
     = Inr \<lparr> netlist = py_join [10]
                 [cps ''* Generated SPICE Netlist'', cps ''* Hardware AI Orchestrator'', [],
                  [], cps ''.op'', cps ''.end''],
             components = [],
             node_mapping = Map.empty,
             analysis_commands = [cps ''.op''],
             metadata = \<lparr> generation_success = True, total_components = Some 0,
                          error = None \<rparr> \<rparr>"
proof -
  have p: "extract_component_pins [] = []"
    by (simp add: extract_component_pins_def)
  have c: "build_connection_network segs [] [] = []"
    by (simp add: build_connection_network_eq nearby_pins_def)
  have n: "identify_electrical_nodes [] [] = []"
    by (simp add: identify_electrical_nodes_def resolve_all_def)
  have g: "generate_spice_netlist (CompList []) [] []
     = Inr \<lparr> netlist = py_join [10]
                 [cps ''* Generated SPICE Netlist'', cps ''* Hardware AI Orchestrator'', [],
                  [], cps ''.op'', cps ''.end''],
             components = [],
             node_mapping = Map.empty,
             analysis_commands = [cps ''.op''],
             metadata = \<lparr> generation_success = True, total_components = Some 0,
                          error = None \<rparr> \<rparr>"
    by (simp add: generate_spice_netlist_def generate_body_def process_components_def
        header_lines_def)
  show ?thesis
    unfolding p c n using g by simp
qed

end
